theory Spec2Isabelle
  imports Main "HOL-Library.Multiset" "HOL-Library.Word"
begin

unbundle bit_operations_syntax

section \<open>Go values, panics and the standard library\<close>

text \<open>
  A Go panic is a value of type \<open>error\<close> on the left of a sum.  \<open>Refused\<close> is not a
  panic: it marks a channel operation that the dispatcher does not offer in its current
  state, so that an event list containing it is not a schedule of the program.
\<close>

datatype error = Panic string | Refused

definition nil_dereference :: error where
  "nil_dereference = Panic ''runtime error: invalid memory address or nil pointer dereference''"

definition index_out_of_range :: error where
  "index_out_of_range = Panic ''runtime error: index out of range''"

definition slice_bounds_out_of_range :: error where
  "slice_bounds_out_of_range = Panic ''runtime error: slice bounds out of range''"

type_synonym byte = "8 word"

text \<open>A \<open>*url.URL\<close> is represented by the string that its \<open>String()\<close> method returns.\<close>

type_synonym url = string

subsection \<open>crypto/sha256 and the verb \<open>%x\<close>\<close>

text \<open>
  \<open>sha256.Sum256\<close> of Go's standard library, after FIPS 180-4: padding, message schedule
  and 64 rounds per 64-byte block on 32-bit words.  The round constants and the initial
  hash value are written in decimal.
\<close>

definition K256 :: "32 word list" where
  "K256 =
    [1116352408, 1899447441, 3049323471, 3921009573, 961987163, 1508970993, 2453635748, 2870763221,
     3624381080, 310598401, 607225278, 1426881987, 1925078388, 2162078206, 2614888103, 3248222580,
     3835390401, 4022224774, 264347078, 604807628, 770255983, 1249150122, 1555081692, 1996064986,
     2554220882, 2821834349, 2952996808, 3210313671, 3336571891, 3584528711, 113926993, 338241895,
     666307205, 773529912, 1294757372, 1396182291, 1695183700, 1986661051, 2177026350, 2456956037,
     2730485921, 2820302411, 3259730800, 3345764771, 3516065817, 3600352804, 4094571909, 275423344,
     430227734, 506948616, 659060556, 883997877, 958139571, 1322822218, 1537002063, 1747873779,
     1955562222, 2024104815, 2227730452, 2361852424, 2428436474, 2756734187, 3204031479, 3329325298]"

definition H256 :: "32 word list" where
  "H256 = [1779033703, 3144134277, 1013904242, 2773480762,
           1359893119, 2600822924, 528734635, 1541459225]"

definition Ch :: "32 word \<Rightarrow> 32 word \<Rightarrow> 32 word \<Rightarrow> 32 word" where
  "Ch x y z = (x AND y) XOR (NOT x AND z)"

definition Maj :: "32 word \<Rightarrow> 32 word \<Rightarrow> 32 word \<Rightarrow> 32 word" where
  "Maj x y z = (x AND y) XOR (x AND z) XOR (y AND z)"

definition bsig0 :: "32 word \<Rightarrow> 32 word" where
  "bsig0 x = word_rotr 2 x XOR word_rotr 13 x XOR word_rotr 22 x"

definition bsig1 :: "32 word \<Rightarrow> 32 word" where
  "bsig1 x = word_rotr 6 x XOR word_rotr 11 x XOR word_rotr 25 x"

definition ssig0 :: "32 word \<Rightarrow> 32 word" where
  "ssig0 x = word_rotr 7 x XOR word_rotr 18 x XOR drop_bit 3 x"

definition ssig1 :: "32 word \<Rightarrow> 32 word" where
  "ssig1 x = word_rotr 17 x XOR word_rotr 19 x XOR drop_bit 10 x"

fun schedule :: "nat \<Rightarrow> 32 word list \<Rightarrow> 32 word list" where
  "schedule 0 w = w"
| "schedule (Suc k) w =
     (let n = length w in
      schedule k (w @ [ssig1 (w ! (n - 2)) + w ! (n - 7) + ssig0 (w ! (n - 15)) + w ! (n - 16)]))"

fun sha_round :: "32 word \<times> 32 word \<Rightarrow> 32 word list \<Rightarrow> 32 word list" where
  "sha_round (k, w) [a, b, c, d, e, f, g, h] =
     (let t1 = h + bsig1 e + Ch e f g + k + w; t2 = bsig0 a + Maj a b c
      in [t1 + t2, a, b, c, d + t1, e, f, g])"
| "sha_round _ s = s"

definition be32 :: "byte list \<Rightarrow> 32 word" where
  "be32 bs = foldl (\<lambda>acc b. push_bit 8 acc OR ucast b) 0 bs"

fun chop :: "nat \<Rightarrow> 'a list \<Rightarrow> 'a list list" where
  "chop n [] = []"
| "chop n (x # xs) = (if n = 0 then [] else take n (x # xs) # chop n (drop (n - 1) xs))"

definition compress :: "32 word list \<Rightarrow> byte list \<Rightarrow> 32 word list" where
  "compress hs block =
     (let w = schedule 48 (map be32 (chop 4 block))
      in map2 (+) hs (fold sha_round (zip K256 w) hs))"

definition be_bytes32 :: "32 word \<Rightarrow> byte list" where
  "be_bytes32 w = map (\<lambda>i. ucast (drop_bit (8 * (3 - i)) w)) [0..<4]"

definition be_bytes64 :: "64 word \<Rightarrow> byte list" where
  "be_bytes64 w = map (\<lambda>i. ucast (drop_bit (8 * (7 - i)) w)) [0..<8]"

definition pad :: "byte list \<Rightarrow> byte list" where
  "pad bs = bs @ [0x80] @ replicate ((119 - length bs mod 64) mod 64) 0
              @ be_bytes64 (of_nat (8 * length bs))"

definition Sum256 :: "byte list \<Rightarrow> byte list" where
  "Sum256 bs =
     concat (map be_bytes32 (fold (\<lambda>blk hs. compress hs blk) (chop 64 (pad bs)) H256))"

text \<open>\<open>fmt.Sprintf("%x", b)\<close> on a byte array or slice: two lower-case digits per byte.\<close>

definition hex_digits :: string where
  "hex_digits = ''0123456789abcdef''"

definition hexdigit :: "nat \<Rightarrow> char" where
  "hexdigit n = hex_digits ! (n mod 16)"

definition hexbyte :: "byte \<Rightarrow> string" where
  "hexbyte b = [hexdigit (unat b div 16), hexdigit (unat b mod 16)]"

definition hex :: "byte list \<Rightarrow> string" where
  "hex bs = concat (map hexbyte bs)"

text \<open>The conversion \<open>[]byte(s)\<close>: a Go string is its bytes.\<close>

definition bytes_of :: "string \<Rightarrow> byte list" where
  "bytes_of s = map of_char s"

subsection \<open>strings.ToLower\<close>

text \<open>
  \<open>strings.ToLower\<close>: on a string of ASCII bytes the letters \<open>A\<close> to \<open>Z\<close> move to \<open>a\<close> to
  \<open>z\<close>, byte by byte.  On any other string the result is
  \<open>strings.Map(unicode.ToLower, s)\<close>, which goes by the case tables of package unicode;
  these are not written out, and that function is the parameter \<open>unicode_lower\<close>.
\<close>

definition ascii :: "string \<Rightarrow> bool" where
  "ascii s = (\<forall>c \<in> set s. (of_char c :: nat) < 128)"

definition is_upper :: "char \<Rightarrow> bool" where
  "is_upper c = (65 \<le> (of_char c :: nat) \<and> (of_char c :: nat) \<le> 90)"

definition lower_char :: "char \<Rightarrow> char" where
  "lower_char c =
     (if 65 \<le> (of_char c :: nat) \<and> (of_char c :: nat) \<le> 90
      then char_of (of_char c + (32 :: nat)) else c)"

definition ToLower :: "(string \<Rightarrow> string) \<Rightarrow> string \<Rightarrow> string" where
  "ToLower unicode_lower s = (if ascii s then map lower_char s else unicode_lower s)"

subsection \<open>encoding/json\<close>

text \<open>
  A JSON document is represented by the value it denotes.  \<open>json.Marshal\<close> writes a Go
  string byte by byte where the bytes are valid UTF-8 and writes the replacement character
  U+FFFD for every byte at which \<open>utf8.DecodeRuneInString\<close> reports an error of width 1.
  \<open>rune_size\<close> is the width of the valid encoding at the head of the bytes, \<open>0\<close> where
  there is none: the table \<open>first\<close> and the accept ranges of package unicode/utf8.
  Escapes and the order of the members of an object (sorted by key) belong to the
  encoding and do not change the value denoted.
\<close>

datatype json = JString string | JInt int | JObject "(string \<times> json) list"

definition in_range :: "nat list \<Rightarrow> nat \<Rightarrow> nat \<Rightarrow> nat \<Rightarrow> bool" where
  "in_range r i lo hi = (i < length r \<and> lo \<le> r ! i \<and> r ! i \<le> hi)"

definition rune_size :: "nat list \<Rightarrow> nat" where
  "rune_size bs =
     (case bs of
        [] \<Rightarrow> 0
      | b0 # r \<Rightarrow>
          if b0 < 128 then 1
          else if 194 \<le> b0 \<and> b0 \<le> 223 then (if in_range r 0 128 191 then 2 else 0)
          else if b0 = 224 then
            (if in_range r 0 160 191 \<and> in_range r 1 128 191 then 3 else 0)
          else if (225 \<le> b0 \<and> b0 \<le> 236) \<or> b0 = 238 \<or> b0 = 239 then
            (if in_range r 0 128 191 \<and> in_range r 1 128 191 then 3 else 0)
          else if b0 = 237 then
            (if in_range r 0 128 159 \<and> in_range r 1 128 191 then 3 else 0)
          else if b0 = 240 then
            (if in_range r 0 144 191 \<and> in_range r 1 128 191 \<and> in_range r 2 128 191
             then 4 else 0)
          else if 241 \<le> b0 \<and> b0 \<le> 243 then
            (if in_range r 0 128 191 \<and> in_range r 1 128 191 \<and> in_range r 2 128 191
             then 4 else 0)
          else if b0 = 244 then
            (if in_range r 0 128 143 \<and> in_range r 1 128 191 \<and> in_range r 2 128 191
             then 4 else 0)
          else 0)"

text \<open>The bytes of U+FFFD in UTF-8.\<close>

definition replacement :: string where
  "replacement = [char_of (239 :: nat), char_of (191 :: nat), char_of (189 :: nat)]"

function Marshal_string :: "string \<Rightarrow> string" where
  "Marshal_string [] = []"
| "Marshal_string (c # cs) =
     (let n = rune_size (map of_char (c # cs)) in
      if n = 0 then replacement @ Marshal_string cs
      else take n (c # cs) @ Marshal_string (drop n (c # cs)))"
  by pat_completeness auto
termination
  by (relation "measure length") auto

declare Marshal_string.simps [simp del]

text \<open>
  \<open>json.Marshal\<close> on a map with string keys whose values are strings, integers and such
  maps: it does not fail on these.
\<close>

primrec json_Marshal :: "json \<Rightarrow> json" where
  "json_Marshal (JString s) = JString (Marshal_string s)"
| "json_Marshal (JInt i) = JInt i"
| "json_Marshal (JObject kvs) = JObject (map (map_prod Marshal_string json_Marshal) kvs)"


section \<open>core/file.go\<close>

text \<open>
  Modelled from the spec: the interface \<open>api.File\<close> (package core/api) is not among
  the sources.  The code calls its methods \<open>URL()\<close>, \<open>Provider().Name()\<close>, \<open>Name()\<close>,
  \<open>Size()\<close> and \<open>Checksum()\<close>; a provider's file is the record of what they return.
  \<open>Checksum\<close> is \<open>None\<close> for a nil byte slice.
\<close>

record apiFile =
  URL :: url
  Provider_Name :: string
  Name :: string
  Size :: int
  Checksum :: "byte list option"
  Checksum_algo :: string

text \<open>
  Modelled from the spec: the constant \<open>api.FileSizeUnknown\<close> is not among the sources; the spec
  gives the sentinel for an unknown size as \<open>-1\<close>.
\<close>

definition FileSizeUnknown :: int where
  "FileSizeUnknown = - 1"

text \<open>
  The struct \<open>file\<close>.  Its embedded interface value \<open>api.File\<close> may be nil (\<open>None\<close>):
  \<open>offline\<close> and \<open>errored\<close> build it so.
\<close>

record file' =
  api_File :: "apiFile option"
  original :: url
  popOrder :: int

text \<open>
  A completion callback \<open>func()\<close> is nil or a closure, known by its identity.  Calling a
  nil func panics; what a closure does when called is its own.
\<close>

datatype callback = NilFunc | Closure nat

datatype effect = Called callback

text \<open>
  The three implementations of the interface \<open>File\<close>.  An \<open>error\<close> value of Go is its
  message, \<open>None\<close> when nil.
\<close>

datatype File =
    onlineFile file' callback
  | offlineFile file' url
  | erroredFile file' url "string option"

definition online :: "apiFile \<Rightarrow> url \<Rightarrow> callback \<Rightarrow> File" where
  "online f orig done_cb = onlineFile \<lparr>api_File = Some f, original = orig, popOrder = - 1\<rparr> done_cb"

definition offline :: "url \<Rightarrow> url \<Rightarrow> File" where
  "offline orig cur = offlineFile \<lparr>api_File = None, original = orig, popOrder = - 1\<rparr> cur"

definition errored :: "url \<Rightarrow> url \<Rightarrow> string option \<Rightarrow> File" where
  "errored orig cur err = erroredFile \<lparr>api_File = None, original = orig, popOrder = - 1\<rparr> cur err"

text \<open>The embedded struct of a File, and the File with that struct replaced.\<close>

fun embedded :: "File \<Rightarrow> file'" where
  "embedded (onlineFile f _) = f"
| "embedded (offlineFile f _) = f"
| "embedded (erroredFile f _ _) = f"

fun with_embedded :: "file' \<Rightarrow> File \<Rightarrow> File" where
  "with_embedded f' (onlineFile f cb) = onlineFile f' cb"
| "with_embedded f' (offlineFile f u) = offlineFile f' u"
| "with_embedded f' (erroredFile f u e) = erroredFile f' u e"

text \<open>
  Methods of the struct \<open>file\<close>.  A method of the embedded interface called on \<open>file\<close>
  dereferences \<open>api_File\<close>; Go has no dynamic dispatch through embedding, so inside
  \<open>file.ID\<close> the call \<open>f.URL()\<close> is the one of \<open>api.File\<close>, also when the outer struct
  declares a \<open>URL\<close> method of its own.
\<close>

definition file_URL :: "file' \<Rightarrow> error + url" where
  "file_URL f = (case api_File f of None \<Rightarrow> Inl nil_dereference | Some a \<Rightarrow> Inr (URL a))"

definition file_ID :: "file' \<Rightarrow> error + string" where
  "file_ID f =
     (case file_URL f of Inl e \<Rightarrow> Inl e | Inr u \<Rightarrow> Inr (hex (Sum256 (bytes_of u))))"

text \<open>
  \<open>file.MarshalJSON\<close>: the map \<open>data\<close>, with the entry \<open>checksum\<close> when the checksum is
  not nil, handed to \<open>json.Marshal\<close>.
\<close>

definition file_MarshalJSON :: "(string \<Rightarrow> string) \<Rightarrow> file' \<Rightarrow> error + json" where
  "file_MarshalJSON unicode_lower f =
     (case file_ID f of
        Inl e \<Rightarrow> Inl e
      | Inr i \<Rightarrow>
         (case api_File f of
            None \<Rightarrow> Inl nil_dereference
          | Some a \<Rightarrow>
              Inr (json_Marshal (JObject
                ([(''id'', JString i),
                  (''provider'', JString (Provider_Name a)),
                  (''name'', JString (Name a)),
                  (''url'', JString (URL a)),
                  (''size'', JInt (Size a))] @
                 (case Checksum a of
                    None \<Rightarrow> []
                  | Some cks \<Rightarrow>
                      [(''checksum'',
                        JObject [(''algo'', JString (ToLower unicode_lower (Checksum_algo a))),
                                 (''sum'', JString (hex cks))])]))))))"

text \<open>Methods of the interface \<open>File\<close>, by implementation.\<close>

definition OriginalURL :: "File \<Rightarrow> url" where
  "OriginalURL F = original (embedded F)"

definition ID :: "File \<Rightarrow> error + string" where
  "ID F = file_ID (embedded F)"

definition MarshalJSON :: "(string \<Rightarrow> string) \<Rightarrow> File \<Rightarrow> error + json" where
  "MarshalJSON unicode_lower F = file_MarshalJSON unicode_lower (embedded F)"

definition setPopOrder :: "int \<Rightarrow> File \<Rightarrow> File" where
  "setPopOrder o' F = with_embedded ((embedded F)\<lparr>popOrder := o'\<rparr>) F"

definition SeqNum :: "File \<Rightarrow> int" where
  "SeqNum F = popOrder (embedded F)"

fun File_URL :: "File \<Rightarrow> error + url" where
  "File_URL (onlineFile f _) = file_URL f"
| "File_URL (offlineFile _ u) = Inr u"
| "File_URL (erroredFile _ u _) = Inr u"

fun Err :: "File \<Rightarrow> string option" where
  "Err (onlineFile _ _) = None"
| "Err (offlineFile _ _) = None"
| "Err (erroredFile _ _ err) = err"

fun Offline :: "File \<Rightarrow> error + bool" where
  "Offline (onlineFile _ _) = Inr False"
| "Offline (offlineFile _ _) = Inr True"
| "Offline (erroredFile _ _ _) = Inl (Panic ''Offline() on errored file'')"

fun LengthUnknown :: "File \<Rightarrow> error + bool" where
  "LengthUnknown (onlineFile f _) =
     (case api_File f of
        None \<Rightarrow> Inl nil_dereference
      | Some a \<Rightarrow> Inr (Size a = FileSizeUnknown))"
| "LengthUnknown (offlineFile _ _) = Inl (Panic ''LengthUnknown() on offline file'')"
| "LengthUnknown (erroredFile _ _ _) = Inl (Panic ''LengthUnknown() on errored file'')"

fun done' :: "File \<Rightarrow> error + effect" where
  "done' (onlineFile _ NilFunc) = Inl nil_dereference"
| "done' (onlineFile _ (Closure c)) = Inr (Called (Closure c))"
| "done' (offlineFile _ _) = Inl (Panic ''done() on offline file'')"
| "done' (erroredFile _ _ _) = Inl (Panic ''done() on errored file'')"


text \<open>The keys of a JSON object, and the value under a key.\<close>

definition json_keys :: "json \<Rightarrow> string list" where
  "json_keys j = (case j of JObject kvs \<Rightarrow> map fst kvs | _ \<Rightarrow> [])"

definition json_get :: "json \<Rightarrow> string \<Rightarrow> json option" where
  "json_get j k = (case j of JObject kvs \<Rightarrow> map_of kvs k | _ \<Rightarrow> None)"

section \<open>core/queue.go\<close>

subsection \<open>Requests\<close>

text \<open>
  A non-nil \<open>File\<close> interface value held by a request is a pointer to one of the three
  structs: an address into the memory of File objects.  \<open>None\<close> is the nil interface.
\<close>

type_synonym fref = nat

text \<open>
  Modelled from the spec: the struct \<open>request\<close> (core/request.go) is not among the sources.
  queue.go reads and writes its fields \<open>file\<close> and \<open>prio\<close>; the spec's data model adds
  the current URL, the insertion-order and the resolved flag.  A \<open>*request\<close> is the
  address \<open>ptr\<close> together with the struct it points to; the model takes the pointers of
  one heap to be distinct.  A slice that was copied from the heap holds the same pointers,
  and what \<open>Set\<close> writes into a request shows in every copy of its pointer
  (\<open>shared_write\<close> below).
\<close>

record request =
  ptr :: nat
  u :: url
  req_file :: "fref option"
  prio :: int
  insertion_order :: int
  is_resolved :: bool

text \<open>
  Modelled from the spec: \<open>request.less\<close> is not among the sources.  The spec: less(a,b) is
  a.priority < b.priority, with insertion-order as deterministic tie-breaker (lower wins).
\<close>

definition request_less :: "request \<Rightarrow> request \<Rightarrow> bool" where
  "request_less a b =
     (prio a < prio b \<or> (prio a = prio b \<and> insertion_order a < insertion_order b))"

text \<open>
  Modelled from the spec: \<open>request.resolved\<close> is not among the sources.  The spec: a resolved?
  flag, set when the request is bound to a terminal File or after recursive expansion.
\<close>

definition resolved :: "request \<Rightarrow> bool" where
  "resolved r = is_resolved r"

subsection \<open>The slice type \<open>pQueue\<close> and its methods\<close>

type_synonym pQueue = "request list"

definition Len :: "pQueue \<Rightarrow> nat" where
  "Len h = length h"

definition Less :: "pQueue \<Rightarrow> nat \<Rightarrow> nat \<Rightarrow> bool" where
  "Less h i j = request_less (h ! i) (h ! j)"

definition Swap :: "pQueue \<Rightarrow> nat \<Rightarrow> nat \<Rightarrow> pQueue" where
  "Swap h i j = h[i := h ! j, j := h ! i]"

definition Push :: "pQueue \<Rightarrow> request \<Rightarrow> pQueue" where
  "Push h x = h @ [x]"

text \<open>
  \<open>pQueue.Pop\<close> reslices to \<open>[0 : len-1]\<close> and returns nil: the second component is the
  returned interface value.  Reslicing an empty slice to \<open>[0 : -1]\<close> panics.
\<close>

definition Pop :: "pQueue \<Rightarrow> error + pQueue \<times> request option" where
  "Pop h = (if length h = 0 then Inl slice_bounds_out_of_range
            else Inr (take (length h - 1) h, None))"

definition peek :: "pQueue \<Rightarrow> error + request" where
  "peek h = (case h of [] \<Rightarrow> Inl index_out_of_range | r # _ \<Rightarrow> Inr r)"

subsection \<open>container/heap\<close>

text \<open>
  Go's package container/heap over the methods above (\<open>Fix\<close> and \<open>Remove\<close> call \<open>up\<close>
  when \<open>down\<close> has not moved the element).  Indices are natural numbers: for
  \<open>j = 0\<close> Go computes the parent \<open>(0 - 1) / 2 = 0\<close> by truncation, and so does
  subtraction on \<open>nat\<close>.  The guard \<open>j1 < 0\<close> of \<open>down\<close> (integer overflow) cannot fire on
  a slice that fits in memory.  \<open>up\<close> and \<open>down\<close> are called with indices in range.
\<close>

function up :: "pQueue \<Rightarrow> nat \<Rightarrow> pQueue" where
  "up h j =
     (let i = (j - 1) div 2 in
      if i = j \<or> \<not> Less h j i then h else up (Swap h i j) i)"
  by pat_completeness auto
termination
  by (relation "measure snd") auto

text \<open>The loop of \<open>down\<close>: the slice and the final index \<open>i\<close>.\<close>

function down_loop :: "pQueue \<Rightarrow> nat \<Rightarrow> nat \<Rightarrow> pQueue \<times> nat" where
  "down_loop h i n =
     (let j1 = 2 * i + 1 in
      if j1 \<ge> n then (h, i)
      else
        let j = (if j1 + 1 < n \<and> Less h (j1 + 1) j1 then j1 + 1 else j1) in
        if \<not> Less h j i then (h, i) else down_loop (Swap h i j) j n)"
  by pat_completeness auto
termination
  by (relation "measure (\<lambda>(h, i, n). n - i)") (auto simp: Let_def)

declare up.simps [simp del] down_loop.simps [simp del]

definition down :: "pQueue \<Rightarrow> nat \<Rightarrow> nat \<Rightarrow> pQueue \<times> bool" where
  "down h i0 n = (case down_loop h i0 n of (h', i) \<Rightarrow> (h', i > i0))"

definition heap_Push :: "pQueue \<Rightarrow> request \<Rightarrow> pQueue" where
  "heap_Push h x = (let h1 = Push h x in up h1 (Len h1 - 1))"

text \<open>
  \<open>heap.Pop\<close>: on an empty heap \<open>n = -1\<close> and \<open>Swap(0, -1)\<close> panics.  The value it
  returns is the one of \<open>pQueue.Pop\<close>.
\<close>

definition heap_Pop :: "pQueue \<Rightarrow> error + pQueue \<times> request option" where
  "heap_Pop h =
     (if Len h = 0 then Inl index_out_of_range
      else
        let n = Len h - 1;
            h1 = Swap h 0 n;
            (h2, moved) = down h1 0 n
        in Pop h2)"

definition heap_Remove :: "pQueue \<Rightarrow> nat \<Rightarrow> error + pQueue \<times> request option" where
  "heap_Remove h i =
     (if i \<ge> Len h then Inl index_out_of_range
      else
        let n = Len h - 1;
            h1 = (if n \<noteq> i
                  then (let hs = Swap h i n;
                            (hd', moved) = down hs i n
                        in if \<not> moved then up hd' i else hd')
                  else h)
        in Pop h1)"

definition heap_Fix :: "pQueue \<Rightarrow> nat \<Rightarrow> error + pQueue" where
  "heap_Fix h i =
     (if i \<ge> Len h \<and> 0 < i then Inl index_out_of_range
      else
        let (hd', moved) = down h i (Len h)
        in Inr (if \<not> moved then up hd' i else hd'))"

subsection \<open>The queue and its dispatcher\<close>

text \<open>
  The struct \<open>queue\<close> (\<open>pQueue\<close>, \<open>finalized\<close>, and whether \<open>get\<close> and \<open>getAll\<close> are
  closed), together with what the goroutine \<open>dispatch\<close> owns or touches: its local
  variable \<open>order\<close>, whether it has returned, and the memory of File objects (\<open>files\<close>).
  Three logs record what the dispatcher has sent: on \<open>get\<close> (the popped request, and the
  \<open>SeqNum\<close> that the sent File shows at that moment, \<open>None\<close> for a nil File), on
  \<open>getAll\<close> (each drained slice) and on the reply channels of \<open>Remove\<close>.
\<close>

record queue =
  pQueue :: pQueue
  finalized :: bool
  get_closed :: bool
  getAll_closed :: bool
  order :: int
  returned :: bool
  files :: "fref \<Rightarrow> File"
  get_log :: "(request \<times> int option) list"
  getAll_log :: "pQueue list"
  Remove_log :: "fref option list"

definition newQueue :: "(fref \<Rightarrow> File) \<Rightarrow> queue" where
  "newQueue mem =
     \<lparr>pQueue = [], finalized = False, get_closed = False, getAll_closed = False,
      order = 0, returned = False, files = mem, get_log = [], getAll_log = [],
      Remove_log = []\<rparr>"

text \<open>
  The closures that queue.go submits through \<open>q.Job\<close>; the dispatcher runs each with
  \<open>job.Work()\<close>.  \<open>job_List\<close> is the closure of \<open>List\<close>, which copies the heap.
\<close>

datatype job =
    job_Finalize
  | job_enqueue request
  | job_enqueueAll "request list"
  | job_Set "fref option" int
  | job_Remove string
  | job_List

text \<open>The index of the first item whose \<open>file\<close> is the interface value \<open>f\<close> (loop of \<open>Set\<close>).\<close>

fun Set_scan :: "fref option \<Rightarrow> pQueue \<Rightarrow> nat \<Rightarrow> nat option" where
  "Set_scan f [] i = None"
| "Set_scan f (item # rest) i =
     (if req_file item = f then Some i else Set_scan f rest (i + 1))"

text \<open>
  The loop of \<open>Remove\<close>: \<open>item.file.ID()\<close> panics on a nil \<open>file\<close> and wherever \<open>ID\<close>
  does.
\<close>

fun Remove_scan :: "(fref \<Rightarrow> File) \<Rightarrow> string \<Rightarrow> pQueue \<Rightarrow> nat \<Rightarrow> error + nat option" where
  "Remove_scan mem ident [] i = Inr None"
| "Remove_scan mem ident (item # rest) i =
     (case req_file item of
        None \<Rightarrow> Inl nil_dereference
      | Some f \<Rightarrow>
          (case ID (mem f) of
             Inl e \<Rightarrow> Inl e
           | Inr x \<Rightarrow> if x = ident then Inr (Some i) else Remove_scan mem ident rest (i + 1)))"

fun Work :: "job \<Rightarrow> queue \<Rightarrow> error + queue" where
  "Work job_Finalize q = Inr (q\<lparr>finalized := True\<rparr>)"
| "Work (job_enqueue req) q = Inr (q\<lparr>pQueue := heap_Push (pQueue q) req\<rparr>)"
| "Work (job_enqueueAll reqs) q = Inr (q\<lparr>pQueue := foldl heap_Push (pQueue q) reqs\<rparr>)"
| "Work (job_Set f p) q =
     (case Set_scan f (pQueue q) 0 of
        None \<Rightarrow> Inr q
      | Some index \<Rightarrow>
          (case heap_Fix ((pQueue q)[index := (pQueue q ! index)\<lparr>prio := p\<rparr>]) index of
             Inl e \<Rightarrow> Inl e
           | Inr h \<Rightarrow> Inr (q\<lparr>pQueue := h\<rparr>)))"
| "Work (job_Remove ident) q =
     (case Remove_scan (files q) ident (pQueue q) 0 of
        Inl e \<Rightarrow> Inl e
      | Inr None \<Rightarrow> Inr q
      | Inr (Some index) \<Rightarrow>
          (case heap_Remove (pQueue q) index of
             Inl e \<Rightarrow> Inl e
           | Inr (h, x) \<Rightarrow>
               Inr (q\<lparr>pQueue := h,
                      Remove_log := Remove_log q @ [req_file (pQueue q ! index)]\<rparr>)))"
| "Work job_List q = Inr q"

text \<open>What the \<open>select\<close> of one loop iteration chooses.\<close>

datatype event = select_getAll | select_get | select_job job

text \<open>
  One iteration of the loop of \<open>dispatch\<close> up to the point where it blocks: with a
  non-empty heap the front request, if resolved, gets the pop order; with an empty heap
  of a finalized queue both channels are closed and the goroutine returns.  Closing a
  channel that is closed already panics.
\<close>

definition enter :: "queue \<Rightarrow> error + queue" where
  "enter q =
     (if returned q then Inr q
      else if Len (pQueue q) > 0 then
        (case peek (pQueue q) of
           Inl e \<Rightarrow> Inl e
         | Inr front \<Rightarrow>
             if resolved front then
               (case req_file front of
                  None \<Rightarrow> Inl nil_dereference
                | Some f \<Rightarrow> Inr (q\<lparr>files := (files q)(f := setPopOrder (order q) (files q f))\<rparr>))
             else Inr q)
      else if finalized q then
        (if get_closed q \<or> getAll_closed q then Inl (Panic ''close of closed channel'')
         else Inr (q\<lparr>get_closed := True, getAll_closed := True, returned := True\<rparr>))
      else Inr q)"

text \<open>
  The blocking part of the iteration, for the communication that takes place.  With an
  empty heap only the job inbox is read; a goroutine that has returned takes part in
  nothing.  A send on a closed channel can always be chosen, and panics.
\<close>

definition select :: "queue \<Rightarrow> event \<Rightarrow> error + queue" where
  "select q ev =
     (if returned q then Inl Refused
      else if Len (pQueue q) > 0 then
        (case ev of
           select_getAll \<Rightarrow>
             if getAll_closed q then Inl (Panic ''send on closed channel'')
             else Inr (q\<lparr>getAll_log := getAll_log q @ [pQueue q], pQueue := []\<rparr>)
         | select_get \<Rightarrow>
             (case peek (pQueue q) of
                Inl e \<Rightarrow> Inl e
              | Inr front \<Rightarrow>
                  if get_closed q then Inl (Panic ''send on closed channel'')
                  else
                    (case heap_Pop (pQueue q) of
                       Inl e \<Rightarrow> Inl e
                     | Inr (h, x) \<Rightarrow>
                         Inr (q\<lparr>get_log := get_log q @
                                  [(front, map_option (\<lambda>f. SeqNum (files q f)) (req_file front))],
                                pQueue := h,
                                order := order q + 1\<rparr>)))
         | select_job j \<Rightarrow> Work j q)
      else
        (case ev of
           select_job j \<Rightarrow> Work j q
         | _ \<Rightarrow> Inl Refused))"

text \<open>
  The goroutine \<open>dispatch\<close> along a list of communications: every element is one loop
  iteration.  The result is the state in which the dispatcher blocks next, or has
  returned.
\<close>

fun dispatch :: "queue \<Rightarrow> event list \<Rightarrow> error + queue" where
  "dispatch q [] = enter q"
| "dispatch q (ev # evs) =
     (case enter q of
        Inl e \<Rightarrow> Inl e
      | Inr q1 \<Rightarrow>
          (case select q1 ev of
             Inl e \<Rightarrow> Inl e
           | Inr q2 \<Rightarrow> dispatch q2 evs))"

subsection \<open>\<open>List\<close>\<close>

text \<open>
  \<open>List()\<close> submits a job that copies the heap into the slice \<open>pq\<close>, waits for it, and
  then pops \<open>pq\<close> in a loop of its own, in the goroutine of the caller.  The dispatcher
  goes on serving while that loop runs.  The copy holds the pointers of the heap, so a
  \<open>Set\<close> job served meanwhile writes the priority of a request that the copy holds as
  well; the copy is not fixed up.  Nothing else the dispatcher does touches the copy.

  \<open>Set_write\<close>: the address and the priority that serving the event writes, if any.
  \<open>shared_write\<close>: the write as it shows in a slice of the same pointers.
\<close>

definition Set_write :: "queue \<Rightarrow> event \<Rightarrow> (nat \<times> int) option" where
  "Set_write q ev =
     (case ev of
        select_job (job_Set f p) \<Rightarrow>
          (case Set_scan f (pQueue q) 0 of
             None \<Rightarrow> None
           | Some index \<Rightarrow> Some (ptr (pQueue q ! index), p))
      | _ \<Rightarrow> None)"

definition shared_write :: "(nat \<times> int) option \<Rightarrow> pQueue \<Rightarrow> pQueue" where
  "shared_write w pq =
     (case w of
        None \<Rightarrow> pq
      | Some (a, p) \<Rightarrow> map (\<lambda>r. if ptr r = a then r\<lparr>prio := p\<rparr> else r) pq)"

text \<open>
  What happens next while the loop of \<open>List\<close> runs: the loop does one iteration, or the
  dispatcher serves one event.
\<close>

datatype List_step = List_pops | dispatcher_serves event

text \<open>
  The loop of \<open>List\<close> over \<open>pq\<close> along a list of steps, with the dispatcher in the state
  \<open>q\<close> and \<open>cjs\<close> filled so far.  The loop ends when \<open>pq\<close> is empty; a list of steps that
  ends before that, or goes on after it, is not a schedule of the call.  The result is
  \<open>cjs\<close> and the state of the queue at that moment.
\<close>

fun List_loop ::
  "queue \<Rightarrow> pQueue \<Rightarrow> fref option list \<Rightarrow> List_step list \<Rightarrow>
     error + fref option list \<times> queue" where
  "List_loop q pq cjs [] = (if Len pq > 0 then Inl Refused else Inr (cjs, q))"
| "List_loop q pq cjs (List_pops # steps) =
     (if Len pq > 0 then
        (case peek pq of
           Inl e \<Rightarrow> Inl e
         | Inr front \<Rightarrow>
             (case heap_Pop pq of
                Inl e \<Rightarrow> Inl e
              | Inr (pq', x) \<Rightarrow> List_loop q pq' (cjs @ [req_file front]) steps))
      else Inl Refused)"
| "List_loop q pq cjs (dispatcher_serves ev # steps) =
     (case dispatch q [ev] of
        Inl e \<Rightarrow> Inl e
      | Inr q' \<Rightarrow> List_loop q' (shared_write (Set_write q ev) pq) cjs steps)"

text \<open>
  \<open>List()\<close>: the job that copies the heap, served by the dispatcher in the state \<open>q\<close>,
  and then the loop.  A dispatcher that has returned serves no job, and the call does not
  get past the job.
\<close>

definition queue_List :: "queue \<Rightarrow> List_step list \<Rightarrow> error + fref option list \<times> queue" where
  "queue_List q steps =
     (case select q (select_job job_List) of
        Inl e \<Rightarrow> Inl e
      | Inr q' \<Rightarrow> List_loop q' (pQueue q) [] steps)"

section \<open>The client (core/client.go)\<close>

text \<open>
  Of the struct \<open>Client\<close>: its two queues, each in the state its dispatcher is in.  Of
  the memory: the counters of the \<open>sync.WaitGroup\<close> objects allocated so far, by address,
  and the effects in the order in which they happen (additions to a wait group, jobs
  submitted to the resolver queue).  An address beyond the allocated wait groups is a
  pointer to nothing.
\<close>

type_synonym wgref = nat

datatype client_effect = WaitGroup_Add wgref int | resolverQueue_Job job

record Client =
  resolverQueue :: queue
  ResolvedQueue :: queue
  waitgroups :: "32 word list"
  effects :: "client_effect list"

text \<open>
  \<open>sync.WaitGroup.Add\<close>: the counter is the \<open>int32\<close> in the upper half of the 64-bit
  state; \<open>Add(delta)\<close> adds \<open>uint64(delta) << 32\<close> to the state, which wraps the counter
  around, and panics when the counter read back is negative.  \<open>Done()\<close> is \<open>Add(-1)\<close>.
  Waiters, and the panic on \<open>Add\<close> racing with \<open>Wait\<close>, are not modelled.
\<close>

definition WaitGroup_Add_on :: "wgref \<Rightarrow> int \<Rightarrow> Client \<Rightarrow> error + Client" where
  "WaitGroup_Add_on wg delta d =
     (if wg \<ge> length (waitgroups d) then Inl nil_dereference
      else
        let v = waitgroups d ! wg + word_of_int delta in
        if sint v < 0 then Inl (Panic ''sync: negative WaitGroup counter'')
        else Inr (d\<lparr>waitgroups := (waitgroups d)[wg := v],
                    effects := effects d @ [WaitGroup_Add wg delta]\<rparr>))"

text \<open>The goroutine that \<open>AddURLs\<close> starts: its closure holds \<open>urls\<close> and \<open>wg\<close>.\<close>

datatype goroutine = enqueue_batch "url list" wgref

text \<open>
  \<open>AddURLs\<close>: the new wait group, the goroutine that the \<open>go\<close> statement starts, and the
  client after \<open>wg.Add\<close>.  The goroutine runs from then on, next to the caller; the model
  keeps it as a value and runs it with \<open>run_goroutine\<close>.
\<close>

definition AddURLs :: "url list \<Rightarrow> Client \<Rightarrow> error + wgref \<times> goroutine \<times> Client" where
  "AddURLs urls d =
     (let wg = length (waitgroups d);
          d1 = d\<lparr>waitgroups := waitgroups d @ [0]\<rparr>
      in case WaitGroup_Add_on wg (int (length urls) + 1) d1 of
           Inl e \<Rightarrow> Inl e
         | Inr d2 \<Rightarrow> Inr (wg, enqueue_batch urls wg, d2))"

text \<open>
  The body of the goroutine.  \<open>rootRequest\<close> (core/request.go) is not among the sources and is a
  parameter.  \<open>enqueueAll\<close> submits its job to the resolver queue and returns a channel,
  which is dropped: the goroutine goes on once the job is submitted, whether or not the
  dispatcher has served it, and the deferred \<open>wg.Done()\<close> runs last.  The dispatcher of
  the resolver queue serves the job as the event \<open>select_job\<close> of that job.
\<close>

fun run_goroutine ::
  "(url \<Rightarrow> wgref \<Rightarrow> int \<Rightarrow> request) \<Rightarrow> goroutine \<Rightarrow> Client \<Rightarrow> error + Client" where
  "run_goroutine rootRequest (enqueue_batch urls wg) d =
     (let requests = map (\<lambda>i. rootRequest (urls ! i) wg (int i)) [0..<length urls];
          d1 = d\<lparr>effects := effects d @ [resolverQueue_Job (job_enqueueAll requests)]\<rparr>
      in WaitGroup_Add_on wg (- 1) d1)"

text \<open>
  \<open>Stop\<close>: four calls of \<open>close\<close>, in the order of the source.  Closing a channel that is
  closed already panics, and the calls after it do not happen.
\<close>

definition close_get :: "queue \<Rightarrow> error + queue" where
  "close_get q =
     (if get_closed q then Inl (Panic ''close of closed channel'')
      else Inr (q\<lparr>get_closed := True\<rparr>))"

definition close_getAll :: "queue \<Rightarrow> error + queue" where
  "close_getAll q =
     (if getAll_closed q then Inl (Panic ''close of closed channel'')
      else Inr (q\<lparr>getAll_closed := True\<rparr>))"

definition Stop :: "Client \<Rightarrow> error + Client" where
  "Stop d =
     (case close_get (ResolvedQueue d) of
        Inl e \<Rightarrow> Inl e
      | Inr r1 \<Rightarrow>
          (case close_getAll r1 of
             Inl e \<Rightarrow> Inl e
           | Inr r2 \<Rightarrow>
               (case close_get (resolverQueue d) of
                  Inl e \<Rightarrow> Inl e
                | Inr s1 \<Rightarrow>
                    (case close_getAll s1 of
                       Inl e \<Rightarrow> Inl e
                     | Inr s2 \<Rightarrow> Inr (d\<lparr>ResolvedQueue := r2, resolverQueue := s2\<rparr>)))))"

section \<open>Example data\<close>

text \<open>
  A memory of online files, requests, and runs of the dispatcher: \<open>demo_queue\<close> is the
  state after \<open>demo_prefix\<close> (three requests queued), \<open>demo_returned\<close> the state after
  \<open>demo_events\<close> (finalized and drained), \<open>demo_tie\<close> the state after two requests of equal
  priority and insertion-order were queued, \<open>demo_stopped\<close> a client after \<open>Stop\<close>, with
  an empty resolver queue and \<open>demo_queue\<close> as resolved queue.
\<close>

definition demo_file :: apiFile where
  "demo_file = \<lparr>URL = ''http://host/a.bin'', Provider_Name = ''basic'', Name = ''a.bin'',
                 Size = - 1, Checksum = Some [0xde, 0xad], Checksum_algo = ''SHA1''\<rparr>"

definition demo_mem :: "fref \<Rightarrow> File" where
  "demo_mem i = online demo_file ''http://host/a.bin'' (Closure i)"

definition demo_request :: "nat \<Rightarrow> int \<Rightarrow> int \<Rightarrow> request" where
  "demo_request f p n =
     \<lparr>ptr = f, u = ''http://host/a.bin'', req_file = Some f, prio = p, insertion_order = n,
      is_resolved = True\<rparr>"

definition demo_prefix :: "event list" where
  "demo_prefix =
     [select_job (job_enqueueAll [demo_request 1 5 0, demo_request 2 3 1]),
      select_job (job_enqueue (demo_request 3 3 0))]"

definition demo_events :: "event list" where
  "demo_events =
     demo_prefix @
     [select_get,
      select_job (job_Set (Some 1) 1),
      select_job job_List,
      select_get,
      select_getAll,
      select_job (job_enqueue (demo_request 4 0 7)),
      select_job job_Finalize,
      select_get]"

definition demo_queue :: queue where
  "demo_queue =
     (case dispatch (newQueue demo_mem) demo_prefix of
        Inl e \<Rightarrow> newQueue demo_mem
      | Inr q \<Rightarrow> q)"

definition demo_returned :: queue where
  "demo_returned =
     (case dispatch (newQueue demo_mem) demo_events of
        Inl e \<Rightarrow> newQueue demo_mem
      | Inr q \<Rightarrow> q)"

definition demo_tie :: queue where
  "demo_tie =
     (case dispatch (newQueue demo_mem)
             [select_job (job_enqueueAll [demo_request 1 0 0, demo_request 2 0 0])] of
        Inl e \<Rightarrow> newQueue demo_mem
      | Inr q \<Rightarrow> q)"

definition demo_client :: "queue \<Rightarrow> queue \<Rightarrow> Client" where
  "demo_client resolver res =
     \<lparr>resolverQueue = resolver, ResolvedQueue = res, waitgroups = [], effects = []\<rparr>"

text \<open>A stand-in for \<open>rootRequest\<close>: an unresolved request without a file.\<close>

definition demo_rootRequest :: "url \<Rightarrow> wgref \<Rightarrow> int \<Rightarrow> request" where
  "demo_rootRequest x wg i =
     \<lparr>ptr = nat i, u = x, req_file = None, prio = 0, insertion_order = i, is_resolved = False\<rparr>"

definition demo_stopped :: Client where
  "demo_stopped =
     (case Stop (demo_client (newQueue demo_mem) demo_queue) of
        Inl e \<Rightarrow> demo_client (newQueue demo_mem) demo_queue
      | Inr d \<Rightarrow> d)"

section \<open>The binary heap of container/heap\<close>

text \<open>
  \<open>request_le a b\<close>: \<open>b\<close> is not less than \<open>a\<close>.  \<open>heap_upto h n\<close>: among the first \<open>n\<close>
  entries no entry is less than its parent.  \<open>except_up\<close> and \<open>except_down\<close> are the
  loop invariants of \<open>up\<close> and \<open>down\<close>: the heap order may fail only between one index
  and its parent, respectively its children.  \<open>child\<close> is the child that \<open>down\<close> picks.
\<close>

definition child :: "pQueue \<Rightarrow> nat \<Rightarrow> nat \<Rightarrow> nat" where
  "child h i n = (if 2 * i + 1 + 1 < n \<and> Less h (2 * i + 1 + 1) (2 * i + 1) then 2 * i + 1 + 1 else 2 * i + 1)"

definition request_le :: "request \<Rightarrow> request \<Rightarrow> bool" where
  "request_le a b = (\<not> request_less b a)"

definition heap_upto :: "pQueue \<Rightarrow> nat \<Rightarrow> bool" where
  "heap_upto h n = (\<forall>k. 0 < k \<and> k < n \<longrightarrow> request_le (h ! ((k - 1) div 2)) (h ! k))"

definition except_up :: "pQueue \<Rightarrow> nat \<Rightarrow> nat \<Rightarrow> bool" where
  "except_up h n j =
     (\<forall>k. 0 < k \<and> k < n \<longrightarrow>
        (k \<noteq> j \<longrightarrow> request_le (h ! ((k - 1) div 2)) (h ! k)) \<and>
        ((k - 1) div 2 = j \<and> 0 < j \<longrightarrow> request_le (h ! ((j - 1) div 2)) (h ! k)))"

definition except_down :: "pQueue \<Rightarrow> nat \<Rightarrow> nat \<Rightarrow> bool" where
  "except_down h n i =
     (\<forall>k. 0 < k \<and> k < n \<longrightarrow>
        ((k - 1) div 2 \<noteq> i \<longrightarrow> request_le (h ! ((k - 1) div 2)) (h ! k)) \<and>
        ((k - 1) div 2 = i \<and> 0 < i \<longrightarrow> request_le (h ! ((i - 1) div 2)) (h ! k)))"

lemma le_refl: "request_le a a"
  by (simp add: request_le_def request_less_def)

lemma le_trans: "request_le a b \<Longrightarrow> request_le b c \<Longrightarrow> request_le a c"
  by (auto simp: request_le_def request_less_def)

lemma less_imp_le: "request_less a b \<Longrightarrow> request_le a b"
  by (auto simp: request_le_def request_less_def)

lemma not_less_le: "\<not> request_less a b \<Longrightarrow> request_le b a"
  by (simp add: request_le_def)

lemma Swap_length [simp]: "length (Swap h i j) = length h"
  by (simp add: Swap_def)

lemma Swap_nth:
  "i < length h \<Longrightarrow> j < length h \<Longrightarrow> k < length h \<Longrightarrow>
   Swap h i j ! k = (if k = j then h ! i else if k = i then h ! j else h ! k)"
  by (simp add: Swap_def nth_list_update)

lemma Swap_mset: "i < length h \<Longrightarrow> j < length h \<Longrightarrow> mset (Swap h i j) = mset h"
  by (simp add: Swap_def mset_swap)

lemma except_upD1:
  "except_up h n j \<Longrightarrow> 0 < k \<Longrightarrow> k < n \<Longrightarrow> k \<noteq> j \<Longrightarrow> request_le (h ! ((k - 1) div 2)) (h ! k)"
  unfolding except_up_def by blast

lemma except_upD2:
  "except_up h n j \<Longrightarrow> 0 < k \<Longrightarrow> k < n \<Longrightarrow> (k - 1) div 2 = j \<Longrightarrow> 0 < j \<Longrightarrow>
   request_le (h ! ((j - 1) div 2)) (h ! k)"
  unfolding except_up_def by blast

lemma except_downD1:
  "except_down h n i \<Longrightarrow> 0 < k \<Longrightarrow> k < n \<Longrightarrow> (k - 1) div 2 \<noteq> i \<Longrightarrow>
   request_le (h ! ((k - 1) div 2)) (h ! k)"
  unfolding except_down_def by blast

lemma except_downD2:
  "except_down h n i \<Longrightarrow> 0 < k \<Longrightarrow> k < n \<Longrightarrow> (k - 1) div 2 = i \<Longrightarrow> 0 < i \<Longrightarrow>
   request_le (h ! ((i - 1) div 2)) (h ! k)"
  unfolding except_down_def by blast

lemma heap_uptoD:
  "heap_upto h n \<Longrightarrow> 0 < k \<Longrightarrow> k < n \<Longrightarrow> request_le (h ! ((k - 1) div 2)) (h ! k)"
  unfolding heap_upto_def by blast

lemma up_swap_step:
  assumes ex: "except_up h n j" and jn: "j < n" and nl: "n \<le> length h"
    and j0: "(j - 1) div 2 \<noteq> j" and lt: "request_less (h ! j) (h ! ((j - 1) div 2))"
  shows "except_up (Swap h ((j - 1) div 2) j) n ((j - 1) div 2)"
proof -
  let ?i = "(j - 1) div 2"
  let ?h = "Swap h ?i j"
  from j0 have jpos: "0 < j" by (cases j) auto
  have ij: "?i < j" using jpos by arith
  have il: "?i < length h" and jl: "j < length h" using ij jn nl by auto
  have leji: "request_le (h ! j) (h ! ?i)" using lt by (rule less_imp_le)
  show ?thesis
    unfolding except_up_def
  proof (intro allI impI conjI)
    fix k assume k: "0 < k \<and> k < n" and kne: "k \<noteq> ?i"
    have kl: "k < length h" and pl: "(k - 1) div 2 < length h" using k nl by auto
    show "request_le (?h ! ((k - 1) div 2)) (?h ! k)"
    proof (cases "k = j")
      case True
      then show ?thesis using il jl ij leji by (simp add: Swap_nth)
    next
      case kj: False
      have pk: "(k - 1) div 2 \<noteq> k" using k by arith
      consider "(k - 1) div 2 = j" | "(k - 1) div 2 = ?i" | "(k - 1) div 2 \<noteq> j \<and> (k - 1) div 2 \<noteq> ?i"
        by blast
      then show ?thesis
      proof cases
        case 1
        from except_upD2[OF ex _ _ 1 jpos] k have "request_le (h ! ?i) (h ! k)" by simp
        with 1 kj kne il jl kl ij show ?thesis by (simp add: Swap_nth)
      next
        case 2
        from except_upD1[OF ex _ _ kj] k have "request_le (h ! ((k - 1) div 2)) (h ! k)" by simp
        with 2 have "request_le (h ! ?i) (h ! k)" by simp
        with leji have "request_le (h ! j) (h ! k)" by (rule le_trans)
        with 2 kj kne il jl kl ij show ?thesis by (simp add: Swap_nth)
      next
        case 3
        from except_upD1[OF ex _ _ kj] k have "request_le (h ! ((k - 1) div 2)) (h ! k)" by simp
        with 3 kj kne il jl kl pl show ?thesis by (simp add: Swap_nth)
      qed
    qed
  next
    fix k assume k: "0 < k \<and> k < n" and pki: "(k - 1) div 2 = ?i \<and> 0 < ?i"
    have kl: "k < length h" using k nl by auto
    have kni: "k \<noteq> ?i" using k pki by arith
    have ppl: "(?i - 1) div 2 < length h" using il by arith
    have ppi: "(?i - 1) div 2 \<noteq> ?i" "(?i - 1) div 2 \<noteq> j" using pki ij by arith+
    have "?i \<noteq> j" using ij by simp
    from except_upD1[OF ex _ _ this] pki ij jn
    have pi: "request_le (h ! ((?i - 1) div 2)) (h ! ?i)" by simp
    show "request_le (?h ! ((?i - 1) div 2)) (?h ! k)"
    proof (cases "k = j")
      case True
      with pi ppi il jl ppl show ?thesis by (simp add: Swap_nth)
    next
      case False
      from except_upD1[OF ex _ _ False] k have "request_le (h ! ((k - 1) div 2)) (h ! k)" by simp
      with pki have "request_le (h ! ?i) (h ! k)" by simp
      with pi have "request_le (h ! ((?i - 1) div 2)) (h ! k)" by (rule le_trans)
      with False kni ppi il jl kl ppl show ?thesis by (simp add: Swap_nth)
    qed
  qed
qed


lemma up_stop: "(j - 1) div 2 = j \<or> \<not> Less h j ((j - 1) div 2) \<Longrightarrow> up h j = h"
  by (simp add: up.simps[of h j] Let_def)

lemma up_step:
  "(j - 1) div 2 \<noteq> j \<Longrightarrow> Less h j ((j - 1) div 2) \<Longrightarrow>
   up h j = up (Swap h ((j - 1) div 2) j) ((j - 1) div 2)"
  by (simp add: up.simps[of h j] Let_def)

lemma down_stop1: "n \<le> 2 * i + 1 \<Longrightarrow> down_loop h i n = (h, i)"
  by (simp add: down_loop.simps[of h i n] Let_def)

lemma down_stop2: "2 * i + 1 < n \<Longrightarrow> \<not> Less h (child h i n) i \<Longrightarrow> down_loop h i n = (h, i)"
  by (auto simp: down_loop.simps[of h i n] Let_def child_def split: if_splits)

lemma down_step:
  "2 * i + 1 < n \<Longrightarrow> Less h (child h i n) i \<Longrightarrow>
   down_loop h i n = down_loop (Swap h i (child h i n)) (child h i n) n"
  by (auto simp: down_loop.simps[of h i n] Let_def child_def split: if_splits)

lemma child_bounds: "2 * i + 1 < n \<Longrightarrow> i < child h i n \<and> child h i n < n"
  by (simp add: child_def)

lemma child_parent: "(child h i n - 1) div 2 = i"
  by (simp add: child_def)

lemma down_loop_induct [case_names step]:
  assumes "\<And>h i. (2 * i + 1 < n \<Longrightarrow> Less h (child h i n) i \<Longrightarrow>
              P (Swap h i (child h i n)) (child h i n)) \<Longrightarrow> P h i"
  shows "P h i"
proof (induction "n - i" arbitrary: h i rule: less_induct)
  case less
  show ?case
  proof (rule assms)
    assume a: "2 * i + 1 < n" "Less h (child h i n) i"
    from child_bounds[OF a(1), of h] have "n - child h i n < n - i" by arith
    then show "P (Swap h i (child h i n)) (child h i n)" by (rule less)
  qed
qed

lemma up_induct [case_names step]:
  assumes "\<And>h j. ((j - 1) div 2 \<noteq> j \<Longrightarrow> Less h j ((j - 1) div 2) \<Longrightarrow>
              P (Swap h ((j - 1) div 2) j) ((j - 1) div 2)) \<Longrightarrow> P h j"
  shows "P h (j::nat)"
proof (induction j arbitrary: h rule: less_induct)
  case (less j)
  show ?case
  proof (rule assms)
    assume a: "(j - 1) div 2 \<noteq> j"
    then have "(j - 1) div 2 < j" by arith
    then show "P (Swap h ((j - 1) div 2) j) ((j - 1) div 2)" by (rule less)
  qed
qed

lemma up_heap:
  "except_up h n j \<Longrightarrow> j < n \<Longrightarrow> n \<le> length h \<Longrightarrow> heap_upto (up h j) n"
proof (induction h j rule: up_induct)
  case (step h j)
  let ?i = "(j - 1) div 2"
  show ?case
  proof (cases "?i = j \<or> \<not> Less h j ?i")
    case True
    have "heap_upto h n"
      unfolding heap_upto_def
    proof (intro allI impI)
      fix k assume k: "0 < k \<and> k < n"
      show "request_le (h ! ((k - 1) div 2)) (h ! k)"
      proof (cases "k = j")
        case False
        from except_upD1[OF step.prems(1) _ _ False] k show ?thesis by simp
      next
        case kj: True
        with k have "?i \<noteq> j" by arith
        with True have "\<not> request_less (h ! j) (h ! ?i)" by (simp add: Less_def)
        then show ?thesis using kj by (simp add: request_le_def)
      qed
    qed
    then show ?thesis by (simp only: up_stop[OF True])
  next
    case False
    then have ne: "?i \<noteq> j" and ls: "Less h j ?i" by auto
    from ls have lt: "request_less (h ! j) (h ! ?i)" by (simp add: Less_def)
    have ex': "except_up (Swap h ?i j) n ?i"
      by (rule up_swap_step[OF step.prems(1) step.prems(2) step.prems(3) ne lt])
    have "?i < n" using step.prems(2) by arith
    with step.IH[OF ne ls ex'] step.prems(3) have "heap_upto (up (Swap h ?i j) ?i) n" by simp
    then show ?thesis by (simp only: up_step[OF ne ls])
  qed
qed

lemma down_swap_step:
  assumes ex: "except_down h n i" and nl: "n \<le> length h" and jn: "j < n"
    and pj: "(j - 1) div 2 = i" and jpos: "0 < j"
    and lt: "request_less (h ! j) (h ! i)"
    and sib: "\<And>k. 0 < k \<Longrightarrow> k < n \<Longrightarrow> (k - 1) div 2 = i \<Longrightarrow> request_le (h ! j) (h ! k)"
  shows "except_down (Swap h i j) n j"
proof -
  let ?h = "Swap h i j"
  have ij: "i < j" using pj jpos by arith
  have il: "i < length h" and jl: "j < length h" using ij jn nl by auto
  show ?thesis
    unfolding except_down_def
  proof (intro allI impI conjI)
    fix k assume k: "0 < k \<and> k < n" and pk: "(k - 1) div 2 \<noteq> j"
    have kl: "k < length h" and pl: "(k - 1) div 2 < length h" using k nl by auto
    have pkk: "(k - 1) div 2 \<noteq> k" using k by arith
    show "request_le (?h ! ((k - 1) div 2)) (?h ! k)"
    proof (cases "(k - 1) div 2 = i")
      case True
      have "request_le (h ! j) (h ! k)" using sib k True by simp
      moreover have "request_le (h ! j) (h ! i)" using lt by (rule less_imp_le)
      moreover have "k \<noteq> i" using True pkk by simp
      ultimately show ?thesis using True il jl kl ij by (simp add: Swap_nth)
    next
      case False
      from except_downD1[OF ex _ _ False] k
      have base: "request_le (h ! ((k - 1) div 2)) (h ! k)" by simp
      have knj: "k \<noteq> j" using False pj by auto
      show ?thesis
      proof (cases "k = i")
        case True
        then have ipos: "0 < i" using k by simp
        from except_downD2[OF ex jpos jn pj ipos]
        have "request_le (h ! ((i - 1) div 2)) (h ! j)" .
        moreover have "(i - 1) div 2 \<noteq> i" "(i - 1) div 2 \<noteq> j" using ipos ij by arith+
        moreover have "(i - 1) div 2 < length h" using il by arith
        ultimately show ?thesis using True il jl ij by (simp add: Swap_nth)
      next
        case kni: False
        with base False pk knj il jl kl pl show ?thesis by (simp add: Swap_nth)
      qed
    qed
  next
    fix k assume k: "0 < k \<and> k < n" and pk: "(k - 1) div 2 = j \<and> 0 < j"
    have kl: "k < length h" using k nl by auto
    have jk: "j < k" using pk k by arith
    have "(k - 1) div 2 \<noteq> i" using pk ij by simp
    from except_downD1[OF ex _ _ this] k pk have "request_le (h ! j) (h ! k)" by simp
    moreover have "k \<noteq> i" "k \<noteq> j" using jk ij by auto
    ultimately show "request_le (?h ! ((j - 1) div 2)) (?h ! k)"
      using pj il jl kl ij by (simp add: Swap_nth)
  qed
qed

lemma child_cases: "0 < (k::nat) \<Longrightarrow> (k - 1) div 2 = i \<Longrightarrow> k = 2 * i + 1 \<or> k = 2 * i + 1 + 1"
  by arith

lemma child_le_sibling:
  assumes k: "0 < k" "k < n" "(k - 1) div 2 = i"
  shows "request_le (h ! child h i n) (h ! k)"
proof -
  from child_cases[OF k(1) k(3)] have kc: "k = 2 * i + 1 \<or> k = 2 * i + 1 + 1" .
  show ?thesis
  proof (cases "2 * i + 1 + 1 < n \<and> Less h (2 * i + 1 + 1) (2 * i + 1)")
    case True
    then have c: "child h i n = 2 * i + 1 + 1" by (simp add: child_def)
    from True have "request_le (h ! (2 * i + 1 + 1)) (h ! (2 * i + 1))"
      by (simp add: Less_def less_imp_le)
    with kc show ?thesis unfolding c by (auto simp: le_refl)
  next
    case False
    then have c: "child h i n = 2 * i + 1" by (simp add: child_def)
    from kc show ?thesis
    proof
      assume "k = 2 * i + 1"
      then show ?thesis unfolding c by (simp add: le_refl)
    next
      assume k2: "k = 2 * i + 1 + 1"
      with k(2) False have "\<not> Less h (2 * i + 1 + 1) (2 * i + 1)" by simp
      then show ?thesis unfolding c k2 by (simp add: Less_def request_le_def)
    qed
  qed
qed

lemma down_loop_heap:
  "except_down h n i \<Longrightarrow> n \<le> length h \<Longrightarrow> heap_upto (fst (down_loop h i n)) n"
proof (induction h i rule: down_loop_induct[where n = n])
  case (step h i)
  show ?case
  proof (cases "2 * i + 1 < n")
    case False
    have "heap_upto h n"
      unfolding heap_upto_def
    proof (intro allI impI)
      fix k assume k: "0 < k \<and> k < n"
      with False have "(k - 1) div 2 \<noteq> i" by arith
      from except_downD1[OF step.prems(1) _ _ this] k
      show "request_le (h ! ((k - 1) div 2)) (h ! k)" by simp
    qed
    moreover from False have "down_loop h i n = (h, i)" by (intro down_stop1) simp
    ultimately show ?thesis by simp
  next
    case inr: True
    let ?j = "child h i n"
    note cb = child_bounds[OF inr, of h]
    show ?thesis
    proof (cases "Less h ?j i")
      case False
      then have lij: "request_le (h ! i) (h ! ?j)" by (simp add: Less_def request_le_def)
      have "heap_upto h n"
        unfolding heap_upto_def
      proof (intro allI impI)
        fix k assume k: "0 < k \<and> k < n"
        show "request_le (h ! ((k - 1) div 2)) (h ! k)"
        proof (cases "(k - 1) div 2 = i")
          case True
          with child_le_sibling[of k n i h] k have "request_le (h ! ?j) (h ! k)" by simp
          with lij have "request_le (h ! i) (h ! k)" by (rule le_trans)
          with True show ?thesis by simp
        next
          case False
          from except_downD1[OF step.prems(1) _ _ False] k show ?thesis by simp
        qed
      qed
      then show ?thesis by (simp only: down_stop2[OF inr False] fst_conv)
    next
      case True
      then have lt: "request_less (h ! ?j) (h ! i)" by (simp add: Less_def)
      have jn: "?j < n" and jpos: "0 < ?j" using cb by auto
      have ex': "except_down (Swap h i ?j) n ?j"
        by (rule down_swap_step[OF step.prems(1) step.prems(2) jn child_parent jpos lt])
           (rule child_le_sibling)
      have "heap_upto (fst (down_loop (Swap h i ?j) ?j n)) n"
        using step.IH[OF inr True ex'] step.prems(2) by simp
      then show ?thesis by (simp only: down_step[OF inr True])
    qed
  qed
qed

lemma down_loop_length [simp]: "length (fst (down_loop h i n)) = length h"
proof (induction h i rule: down_loop_induct[where n = n])
  case (step h i)
  show ?case
  proof (cases "2 * i + 1 < n \<and> Less h (child h i n) i")
    case True
    with step.IH show ?thesis by (simp add: down_step)
  next
    case False
    then have "down_loop h i n = (h, i)"
      by (cases "2 * i + 1 < n") (auto intro: down_stop1 down_stop2)
    then show ?thesis by simp
  qed
qed

lemma down_loop_mset: "n \<le> length h \<Longrightarrow> i < n \<Longrightarrow> mset (fst (down_loop h i n)) = mset h"
proof (induction h i rule: down_loop_induct[where n = n])
  case (step h i)
  show ?case
  proof (cases "2 * i + 1 < n \<and> Less h (child h i n) i")
    case True
    then have inr: "2 * i + 1 < n" by simp
    note cb = child_bounds[OF inr, of h]
    from step.IH True step.prems cb
    have "mset (fst (down_loop (Swap h i (child h i n)) (child h i n) n)) = mset (Swap h i (child h i n))"
      by simp
    also have "\<dots> = mset h" using cb step.prems by (intro Swap_mset) auto
    finally show ?thesis using True by (simp add: down_step)
  next
    case False
    then have "down_loop h i n = (h, i)"
      by (cases "2 * i + 1 < n") (auto intro: down_stop1 down_stop2)
    then show ?thesis by simp
  qed
qed

lemma down_loop_beyond:
  "n \<le> k \<Longrightarrow> k < length h \<Longrightarrow> i < n \<Longrightarrow> fst (down_loop h i n) ! k = h ! k"
proof (induction h i rule: down_loop_induct[where n = n])
  case (step h i)
  show ?case
  proof (cases "2 * i + 1 < n \<and> Less h (child h i n) i")
    case True
    then have inr: "2 * i + 1 < n" by simp
    note cb = child_bounds[OF inr, of h]
    from step.IH True step.prems cb
    have "fst (down_loop (Swap h i (child h i n)) (child h i n) n) ! k = Swap h i (child h i n) ! k"
      by simp
    also have "\<dots> = h ! k" using cb step.prems by (simp add: Swap_nth)
    finally show ?thesis using True by (simp add: down_step)
  next
    case False
    then have "down_loop h i n = (h, i)"
      by (cases "2 * i + 1 < n") (auto intro: down_stop1 down_stop2)
    then show ?thesis by simp
  qed
qed

lemma down_loop_index: "i \<le> snd (down_loop h i n)"
proof (induction h i rule: down_loop_induct[where n = n])
  case (step h i)
  show ?case
  proof (cases "2 * i + 1 < n \<and> Less h (child h i n) i")
    case True
    then have inr: "2 * i + 1 < n" by simp
    note cb = child_bounds[OF inr, of h]
    from step.IH True cb show ?thesis by (simp add: down_step)
  next
    case False
    then have "down_loop h i n = (h, i)"
      by (cases "2 * i + 1 < n") (auto intro: down_stop1 down_stop2)
    then show ?thesis by simp
  qed
qed

lemma down_loop_unmoved: "snd (down_loop h i n) = i \<Longrightarrow> fst (down_loop h i n) = h"
proof (cases "2 * i + 1 < n \<and> Less h (child h i n) i")
  case True
  assume a: "snd (down_loop h i n) = i"
  from True have inr: "2 * i + 1 < n" by simp
  note cb = child_bounds[OF inr, of h]
  have "child h i n \<le> snd (down_loop (Swap h i (child h i n)) (child h i n) n)"
    by (rule down_loop_index)
  with True a cb show ?thesis by (simp add: down_step)
next
  case False
  then have "down_loop h i n = (h, i)"
    by (cases "2 * i + 1 < n") (auto intro: down_stop1 down_stop2)
  then show ?thesis by simp
qed


lemma up_length [simp]: "j < length h \<Longrightarrow> length (up h j) = length h"
proof (induction h j rule: up_induct)
  case (step h j)
  show ?case
  proof (cases "(j - 1) div 2 = j \<or> \<not> Less h j ((j - 1) div 2)")
    case True
    then show ?thesis by (simp only: up_stop)
  next
    case False
    then have ne: "(j - 1) div 2 \<noteq> j" and ls: "Less h j ((j - 1) div 2)" by auto
    have "(j - 1) div 2 < length h" using step.prems by arith
    with step.IH[OF ne ls] show ?thesis by (simp add: up_step[OF ne ls])
  qed
qed

lemma up_mset: "j < length h \<Longrightarrow> mset (up h j) = mset h"
proof (induction h j rule: up_induct)
  case (step h j)
  show ?case
  proof (cases "(j - 1) div 2 = j \<or> \<not> Less h j ((j - 1) div 2)")
    case True
    then show ?thesis by (simp only: up_stop)
  next
    case False
    then have ne: "(j - 1) div 2 \<noteq> j" and ls: "Less h j ((j - 1) div 2)" by auto
    have pl: "(j - 1) div 2 < length h" using step.prems by arith
    with step.IH[OF ne ls] have "mset (up (Swap h ((j - 1) div 2) j) ((j - 1) div 2)) =
        mset (Swap h ((j - 1) div 2) j)" by simp
    also have "\<dots> = mset h" using pl step.prems by (intro Swap_mset)
    finally show ?thesis by (simp add: up_step[OF ne ls])
  qed
qed

lemma up_beyond: "j < k \<Longrightarrow> k < length h \<Longrightarrow> up h j ! k = h ! k"
proof (induction h j rule: up_induct)
  case (step h j)
  show ?case
  proof (cases "(j - 1) div 2 = j \<or> \<not> Less h j ((j - 1) div 2)")
    case True
    then show ?thesis by (simp only: up_stop)
  next
    case False
    then have ne: "(j - 1) div 2 \<noteq> j" and ls: "Less h j ((j - 1) div 2)" by auto
    have pl: "(j - 1) div 2 < j" using ne by arith
    with step.IH[OF ne ls] step.prems
    have "up (Swap h ((j - 1) div 2) j) ((j - 1) div 2) ! k = Swap h ((j - 1) div 2) j ! k"
      by simp
    also have "\<dots> = h ! k" using pl step.prems by (simp add: Swap_nth)
    finally show ?thesis by (simp add: up_step[OF ne ls])
  qed
qed

definition heap_ok :: "pQueue \<Rightarrow> bool" where
  "heap_ok h = heap_upto h (length h)"

lemma heap_upto_root:
  "heap_upto h n \<Longrightarrow> k < n \<Longrightarrow> request_le (h ! 0) (h ! k)"
proof (induction k rule: less_induct)
  case (less k)
  show ?case
  proof (cases "k = 0")
    case True
    then show ?thesis by (simp add: le_refl)
  next
    case False
    then have kp: "0 < k" by simp
    have "(k - 1) div 2 < k" using kp by arith
    moreover have "(k - 1) div 2 < n" using less.prems(2) by arith
    ultimately have "request_le (h ! 0) (h ! ((k - 1) div 2))"
      using less.IH less.prems(1) by blast
    moreover have "request_le (h ! ((k - 1) div 2)) (h ! k)"
      by (rule heap_uptoD[OF less.prems(1) kp less.prems(2)])
    ultimately show ?thesis by (rule le_trans)
  qed
qed

lemma heap_ok_root: "heap_ok h \<Longrightarrow> x \<in> set h \<Longrightarrow> \<not> request_less x (h ! 0)"
proof -
  assume ok: "heap_ok h" and x: "x \<in> set h"
  then obtain k where "k < length h" "h ! k = x" by (auto simp: in_set_conv_nth)
  with heap_upto_root[of h "length h" k] ok show ?thesis
    by (simp add: heap_ok_def request_le_def)
qed

lemma heap_upto_shrink: "heap_upto h n \<Longrightarrow> m \<le> n \<Longrightarrow> heap_upto h m"
  by (simp add: heap_upto_def)

lemma heap_upto_cong:
  "heap_upto h n \<Longrightarrow> (\<And>k. k < n \<Longrightarrow> h' ! k = h ! k) \<Longrightarrow> heap_upto h' n"
proof -
  assume hu: "heap_upto h n" and eq: "\<And>k. k < n \<Longrightarrow> h' ! k = h ! k"
  show ?thesis
    unfolding heap_upto_def
  proof (intro allI impI)
    fix k assume k: "0 < k \<and> k < n"
    then have "(k - 1) div 2 < n" by arith
    with eq k have "h' ! ((k - 1) div 2) = h ! ((k - 1) div 2)" "h' ! k = h ! k" by auto
    with heap_uptoD[OF hu] k show "request_le (h' ! ((k - 1) div 2)) (h' ! k)" by simp
  qed
qed

lemma heap_Push_ok:
  assumes "heap_ok h"
  shows "heap_ok (heap_Push h x)" and "mset (heap_Push h x) = mset h + {#x#}"
    and "length (heap_Push h x) = Suc (length h)"
proof -
  let ?n = "length h"
  let ?h = "h @ [x]"
  have hu: "heap_upto ?h ?n"
    using assms unfolding heap_ok_def by (rule heap_upto_cong) (simp add: nth_append)
  have ex: "except_up ?h (Suc ?n) ?n"
    unfolding except_up_def
  proof (intro allI impI conjI)
    fix k assume k: "0 < k \<and> k < Suc ?n" and "k \<noteq> ?n"
    then have "k < ?n" by simp
    with heap_uptoD[OF hu] k show "request_le (?h ! ((k - 1) div 2)) (?h ! k)" by simp
  next
    fix k assume k: "0 < k \<and> k < Suc ?n" and "(k - 1) div 2 = ?n \<and> 0 < ?n"
    then have False by arith
    then show "request_le (?h ! ((?n - 1) div 2)) (?h ! k)" ..
  qed
  have eq: "heap_Push h x = up ?h ?n" by (simp add: heap_Push_def Push_def Len_def)
  have "heap_upto (up ?h ?n) (Suc ?n)" by (rule up_heap[OF ex]) simp_all
  then show "heap_ok (heap_Push h x)" by (simp add: eq heap_ok_def)
  show "mset (heap_Push h x) = mset h + {#x#}" by (simp add: eq up_mset)
  show "length (heap_Push h x) = Suc (length h)" by (simp add: eq)
qed


lemma down_fst [simp]: "fst (down h i n) = fst (down_loop h i n)"
  by (simp add: down_def split: prod.split)

lemma down_snd [simp]: "snd (down h i n) = (i < snd (down_loop h i n))"
  by (simp add: down_def split: prod.split)

lemma heap_Pop_eq:
  assumes "h \<noteq> []"
  shows "heap_Pop h =
     Inr (take (length h - 1) (fst (down_loop (Swap h 0 (length h - 1)) 0 (length h - 1))), None)"
proof -
  obtain h2 moved where d: "down (Swap h 0 (length h - 1)) 0 (length h - 1) = (h2, moved)"
    by force
  from d have h2: "h2 = fst (down_loop (Swap h 0 (length h - 1)) 0 (length h - 1))"
    using down_fst[of "Swap h 0 (length h - 1)" 0 "length h - 1"] by simp
  have len: "length h2 = length h" by (simp add: h2)
  from assms len have ne: "h2 \<noteq> []" by auto
  from assms d len ne have "heap_Pop h = Inr (take (length h - 1) h2, None)"
    by (simp add: heap_Pop_def Len_def Pop_def Let_def)
  then show ?thesis by (simp only: h2)
qed

lemma heap_Pop_empty [simp]: "heap_Pop [] = Inl index_out_of_range"
  by (simp add: heap_Pop_def Len_def)

lemma heap_Pop_length: "heap_Pop pq = Inr (pq', x) \<Longrightarrow> length pq' < length pq"
  by (cases "pq = []") (auto simp: heap_Pop_eq)

definition fix_at :: "pQueue \<Rightarrow> nat \<Rightarrow> nat \<Rightarrow> pQueue" where
  "fix_at g i n =
     (if \<not> snd (down g i n) then up (fst (down g i n)) i else fst (down g i n))"

lemma heap_upto_except_up: "heap_upto g n \<Longrightarrow> i < n \<Longrightarrow> except_up g n i"
  unfolding except_up_def
proof (intro allI impI conjI)
  fix k assume hu: "heap_upto g n" and k: "0 < k \<and> k < n"
  then show "request_le (g ! ((k - 1) div 2)) (g ! k)" using heap_uptoD[of g n k] by blast
next
  fix k assume hu: "heap_upto g n" and i: "i < n" and k: "0 < k \<and> k < n"
    and p: "(k - 1) div 2 = i \<and> 0 < i"
  from hu p i have "request_le (g ! ((i - 1) div 2)) (g ! i)" using heap_uptoD[of g n i] by blast
  moreover from heap_uptoD[OF hu] k p have "request_le (g ! i) (g ! k)" by auto
  ultimately show "request_le (g ! ((i - 1) div 2)) (g ! k)" by (rule le_trans)
qed

lemma fix_grand:
  assumes hu: "heap_upto h n" and agree: "\<And>k. k < n \<Longrightarrow> k \<noteq> i \<Longrightarrow> g ! k = h ! k"
    and i: "i < n" and k: "0 < k" "k < n" and p: "(k - 1) div 2 = i" and ipos: "0 < i"
  shows "request_le (g ! ((i - 1) div 2)) (g ! k)"
proof -
  have kni: "k \<noteq> i" using k p by arith
  have pni: "(i - 1) div 2 \<noteq> i" "(i - 1) div 2 < n" using ipos i by arith+
  from heap_uptoD[OF hu ipos i] have "request_le (h ! ((i - 1) div 2)) (h ! i)" .
  moreover from heap_uptoD[OF hu k] p have "request_le (h ! i) (h ! k)" by simp
  ultimately have "request_le (h ! ((i - 1) div 2)) (h ! k)" by (rule le_trans)
  with agree[OF k(2) kni] agree[OF pni(2) pni(1)] show ?thesis by simp
qed

lemma fix_except_down:
  assumes hu: "heap_upto h n" and agree: "\<And>k. k < n \<Longrightarrow> k \<noteq> i \<Longrightarrow> g ! k = h ! k"
    and i: "i < n" and edge: "i = 0 \<or> request_le (g ! ((i - 1) div 2)) (g ! i)"
  shows "except_down g n i"
  unfolding except_down_def
proof (intro allI impI conjI)
  fix k assume k: "0 < k \<and> k < n" and p: "(k - 1) div 2 \<noteq> i"
  show "request_le (g ! ((k - 1) div 2)) (g ! k)"
  proof (cases "k = i")
    case True
    with k edge show ?thesis by auto
  next
    case False
    have "(k - 1) div 2 < n" using k by arith
    from agree[OF this p] agree[of k] False k heap_uptoD[OF hu, of k]
    show ?thesis by simp
  qed
next
  fix k assume k: "0 < k \<and> k < n" and p: "(k - 1) div 2 = i \<and> 0 < i"
  show "request_le (g ! ((i - 1) div 2)) (g ! k)"
    using fix_grand[OF hu agree i _ _ _ _, of k] k p by simp
qed

lemma fix_except_up:
  assumes hu: "heap_upto h n" and agree: "\<And>k. k < n \<Longrightarrow> k \<noteq> i \<Longrightarrow> g ! k = h ! k"
    and i: "i < n"
    and below: "\<And>k. 0 < k \<Longrightarrow> k < n \<Longrightarrow> (k - 1) div 2 = i \<Longrightarrow> request_le (g ! i) (g ! k)"
  shows "except_up g n i"
  unfolding except_up_def
proof (intro allI impI conjI)
  fix k assume k: "0 < k \<and> k < n" and kni: "k \<noteq> i"
  show "request_le (g ! ((k - 1) div 2)) (g ! k)"
  proof (cases "(k - 1) div 2 = i")
    case True
    with below[of k] k show ?thesis by simp
  next
    case False
    have "(k - 1) div 2 < n" using k by arith
    from agree[OF this False] agree[of k] kni k heap_uptoD[OF hu, of k]
    show ?thesis by simp
  qed
next
  fix k assume k: "0 < k \<and> k < n" and p: "(k - 1) div 2 = i \<and> 0 < i"
  show "request_le (g ! ((i - 1) div 2)) (g ! k)"
    using fix_grand[OF hu agree i _ _ _ _, of k] k p by simp
qed

lemma fix_at_heap:
  assumes hu: "heap_upto h n" and agree: "\<And>k. k < n \<Longrightarrow> k \<noteq> i \<Longrightarrow> g ! k = h ! k"
    and i: "i < n" and n: "n \<le> length g"
  shows "heap_upto (fix_at g i n) n"
proof (cases "i = 0 \<or> request_le (g ! ((i - 1) div 2)) (g ! i)")
  case True
  have ed: "except_down g n i" by (rule fix_except_down[OF hu agree i True])
  have hd: "heap_upto (fst (down_loop g i n)) n" by (rule down_loop_heap[OF ed n])
  show ?thesis
  proof (cases "i < snd (down_loop g i n)")
    case True
    with hd show ?thesis by (simp add: fix_at_def)
  next
    case False
    with down_loop_index[of i g n] have "snd (down_loop g i n) = i" by simp
    then have same: "fst (down_loop g i n) = g" by (rule down_loop_unmoved)
    with hd have "heap_upto g n" by simp
    then have "except_up g n i" using i by (rule heap_upto_except_up)
    then have "heap_upto (up g i) n" using i n by (rule up_heap)
    with False same show ?thesis by (simp add: fix_at_def)
  qed
next
  case False
  then have ipos: "0 < i" and lt: "request_less (g ! i) (g ! ((i - 1) div 2))"
    by (auto simp: request_le_def)
  have pn: "(i - 1) div 2 < n" "(i - 1) div 2 \<noteq> i" using ipos i by arith+
  have below: "request_le (g ! i) (g ! k)" if k: "0 < k" "k < n" "(k - 1) div 2 = i" for k
  proof -
    have "request_le (g ! ((i - 1) div 2)) (g ! k)"
      by (rule fix_grand[OF hu agree i k ipos])
    with less_imp_le[OF lt] show ?thesis by (rule le_trans)
  qed
  have stay: "down_loop g i n = (g, i)"
  proof (cases "2 * i + 1 < n")
    case True
    note cb = child_bounds[OF True, of g]
    have "request_le (g ! i) (g ! child g i n)"
      using below[of "child g i n"] cb child_parent[of g i n] by simp
    then have "\<not> Less g (child g i n) i" by (simp add: Less_def request_le_def)
    with True show ?thesis by (rule down_stop2)
  next
    case False
    then show ?thesis by (intro down_stop1) simp
  qed
  have "except_up g n i" by (rule fix_except_up[OF hu agree i below])
  then have "heap_upto (up g i) n" using i n by (rule up_heap)
  with stay show ?thesis by (simp add: fix_at_def)
qed

lemma fix_at_length [simp]: "i < length g \<Longrightarrow> length (fix_at g i n) = length g"
  by (simp add: fix_at_def)

lemma fix_at_mset: "i < n \<Longrightarrow> n \<le> length g \<Longrightarrow> mset (fix_at g i n) = mset g"
  by (simp add: fix_at_def up_mset down_loop_mset)

lemma fix_at_beyond: "i < n \<Longrightarrow> n \<le> k \<Longrightarrow> k < length g \<Longrightarrow> fix_at g i n ! k = g ! k"
  by (simp add: fix_at_def up_beyond down_loop_beyond)

lemma Swap_nth_other: "k \<noteq> i \<Longrightarrow> k \<noteq> j \<Longrightarrow> Swap h i j ! k = h ! k"
  by (simp add: Swap_def)

lemma heap_Pop_ok:
  assumes ok: "heap_ok h" and ne: "h \<noteq> []"
  shows "\<exists>h'. heap_Pop h = Inr (h', None) \<and> heap_ok h' \<and> mset h' = mset h - {#h ! 0#} \<and>
          length h' = length h - 1"
proof -
  let ?n = "length h - 1"
  let ?h1 = "Swap h 0 ?n"
  let ?h2 = "fst (down_loop ?h1 0 ?n)"
  let ?h' = "take ?n ?h2"
  have nl: "?n < length h" using ne by (cases h) auto
  have eq: "heap_Pop h = Inr (?h', None)" by (rule heap_Pop_eq[OF ne])
  have hu: "heap_upto h (length h)" using ok by (simp add: heap_ok_def)
  have ed: "except_down ?h1 ?n 0"
    unfolding except_down_def
  proof (intro allI impI conjI)
    fix k assume k: "0 < k \<and> k < ?n" and p: "(k - 1) div 2 \<noteq> 0"
    have "(k - 1) div 2 < ?n" using k by arith
    with k p nl have "?h1 ! ((k - 1) div 2) = h ! ((k - 1) div 2)" "?h1 ! k = h ! k"
      by (simp_all add: Swap_nth_other)
    moreover have "k < length h" using k by arith
    then have "request_le (h ! ((k - 1) div 2)) (h ! k)"
      using heap_uptoD[OF hu, of k] k by blast
    ultimately show "request_le (?h1 ! ((k - 1) div 2)) (?h1 ! k)" by simp
  qed simp
  have h2: "heap_upto ?h2 ?n" by (rule down_loop_heap[OF ed]) simp
  have "heap_upto ?h' ?n" using h2 by (rule heap_upto_cong) simp
  then have ok': "heap_ok ?h'" using nl by (simp add: heap_ok_def)
  have len: "length ?h' = length h - 1" by simp
  have ms2: "mset ?h2 = mset h" and last2: "?h2 ! ?n = h ! 0"
  proof -
    show "mset ?h2 = mset h"
    proof (cases "?n = 0")
      case True
      then show ?thesis by (simp add: down_stop1 Swap_def)
    next
      case False
      then have "mset ?h2 = mset ?h1" using nl ne by (intro down_loop_mset) simp_all
      also have "\<dots> = mset h" using nl ne by (intro Swap_mset) simp_all
      finally show ?thesis .
    qed
    show "?h2 ! ?n = h ! 0"
    proof (cases "?n = 0")
      case True
      then show ?thesis by (simp add: down_stop1 Swap_def)
    next
      case False
      then have "?h2 ! ?n = ?h1 ! ?n" using nl ne by (intro down_loop_beyond) simp_all
      also have "\<dots> = h ! 0" using nl ne by (simp add: Swap_nth)
      finally show ?thesis .
    qed
  qed
  have "?h2 = ?h' @ [?h2 ! ?n]"
    using nl by (simp add: take_Suc_conv_app_nth[symmetric])
  then have "mset ?h2 = mset ?h' + {#?h2 ! ?n#}" by (metis mset_append mset_single_iff_right mset.simps(1) mset.simps(2) union_mset_add_mset_right add.right_neutral)
  with ms2 last2 have ms: "mset ?h' = mset h - {#h ! 0#}" by simp
  from eq ok' ms len show ?thesis by blast
qed

lemma take_last_mset: "length g = Suc n \<Longrightarrow> mset (take n g) = mset g - {#g ! n#}"
proof -
  assume l: "length g = Suc n"
  then have "g = take n g @ [g ! n]" by (simp add: take_Suc_conv_app_nth[symmetric])
  then have "mset g = mset (take n g) + {#g ! n#}" by (metis mset_append mset.simps(1) mset.simps(2) union_mset_add_mset_right add.right_neutral)
  then show ?thesis by simp
qed

lemma heap_Fix_eq: "i < length g \<Longrightarrow> heap_Fix g i = Inr (fix_at g i (length g))"
  by (simp add: heap_Fix_def fix_at_def Len_def case_prod_beta del: down_fst down_snd)

lemma heap_Fix_ok:
  assumes ok: "heap_ok h" and i: "i < length h"
  shows "\<exists>h'. heap_Fix (h[i := x]) i = Inr h' \<and> heap_ok h' \<and> mset h' = mset (h[i := x]) \<and>
          length h' = length h"
proof -
  let ?g = "h[i := x]"
  have eq: "heap_Fix ?g i = Inr (fix_at ?g i (length h))" using i by (simp add: heap_Fix_eq)
  have hu: "heap_upto h (length h)" using ok by (simp add: heap_ok_def)
  have "heap_upto (fix_at ?g i (length h)) (length h)"
    by (rule fix_at_heap[OF hu _ i]) simp_all
  then have "heap_ok (fix_at ?g i (length h))" using i by (simp add: heap_ok_def)
  moreover have "mset (fix_at ?g i (length h)) = mset ?g" using i by (simp add: fix_at_mset)
  moreover have "length (fix_at ?g i (length h)) = length h" using i by simp
  ultimately show ?thesis using eq by blast
qed

lemma heap_Remove_eq:
  "i < length h \<Longrightarrow>
   heap_Remove h i =
     Pop (if length h - 1 \<noteq> i then fix_at (Swap h i (length h - 1)) i (length h - 1) else h)"
  by (simp add: heap_Remove_def fix_at_def Len_def Let_def case_prod_beta del: down_fst down_snd)

lemma heap_Remove_ok:
  assumes ok: "heap_ok h" and i: "i < length h"
  shows "\<exists>h'. heap_Remove h i = Inr (h', None) \<and> heap_ok h' \<and> mset h' = mset h - {#h ! i#} \<and>
          length h' = length h - 1"
proof -
  let ?n = "length h - 1"
  have ln: "length h = Suc ?n" using i by simp
  have ne: "h \<noteq> []" using i by auto
  have hu: "heap_upto h ?n" using ok by (simp add: heap_ok_def heap_upto_shrink)
  show ?thesis
  proof (cases "?n = i")
    case True
    then have eq: "heap_Remove h i = Inr (take ?n h, None)"
      using i ne by (simp add: heap_Remove_eq Pop_def)
    have "heap_upto (take ?n h) ?n" using hu by (rule heap_upto_cong) simp
    then have "heap_ok (take ?n h)" using ln by (simp add: heap_ok_def)
    moreover have "mset (take ?n h) = mset h - {#h ! i#}"
      using take_last_mset[OF ln] True by simp
    ultimately show ?thesis using eq by simp
  next
    case False
    then have i_n: "i < ?n" using i by arith
    let ?g = "Swap h i ?n"
    let ?r = "fix_at ?g i ?n"
    have lr: "length ?r = Suc ?n" using i ln by simp
    have eq: "heap_Remove h i = Inr (take ?n ?r, None)"
      using i False lr ne by (simp add: heap_Remove_eq Pop_def)
    have "heap_upto ?r ?n"
      by (rule fix_at_heap[OF hu _ i_n]) (simp_all add: Swap_nth_other)
    then have "heap_upto (take ?n ?r) ?n" by (rule heap_upto_cong) simp
    then have "heap_ok (take ?n ?r)" using lr by (simp add: heap_ok_def)
    moreover have "?r ! ?n = h ! i"
    proof -
      have "?r ! ?n = ?g ! ?n" using i_n ln by (intro fix_at_beyond) simp_all
      also have "\<dots> = h ! i" using i ln by (simp add: Swap_nth)
      finally show ?thesis .
    qed
    moreover have "mset ?r = mset h"
    proof -
      have "mset ?r = mset ?g" using i_n ln by (intro fix_at_mset) simp_all
      also have "\<dots> = mset h" using i ln by (intro Swap_mset) simp_all
      finally show ?thesis .
    qed
    ultimately have "heap_ok (take ?n ?r) \<and> mset (take ?n ?r) = mset h - {#h ! i#}"
      using take_last_mset[OF lr] by simp
    then show ?thesis using eq lr by simp
  qed
qed

lemma foldl_heap_Push_ok:
  "heap_ok h \<Longrightarrow> heap_ok (foldl heap_Push h reqs) \<and>
     mset (foldl heap_Push h reqs) = mset h + mset reqs \<and>
     length (foldl heap_Push h reqs) = length h + length reqs"
proof (induction reqs arbitrary: h)
  case Nil
  then show ?case by simp
next
  case (Cons r reqs)
  from heap_Push_ok[OF Cons.prems, of r] Cons.IH[of "heap_Push h r"]
  show ?case by simp
qed

lemma Set_scan_bound: "Set_scan f xs k = Some i \<Longrightarrow> k \<le> i \<and> i < k + length xs"
proof (induction xs arbitrary: k)
  case Nil
  then show ?case by simp
next
  case (Cons a xs)
  show ?case
  proof (cases "req_file a = f")
    case True
    with Cons.prems show ?thesis by simp
  next
    case False
    with Cons.prems have "Set_scan f xs (k + 1) = Some i" by simp
    then have "k + 1 \<le> i \<and> i < k + 1 + length xs" by (rule Cons.IH)
    then show ?thesis by simp
  qed
qed

lemma Remove_scan_bound:
  "Remove_scan mem ident xs k = Inr (Some i) \<Longrightarrow> k \<le> i \<and> i < k + length xs"
proof (induction xs arbitrary: k)
  case Nil
  then show ?case by simp
next
  case (Cons a xs)
  show ?case
  proof (cases "Remove_scan mem ident xs (k + 1) = Inr (Some i)")
    case True
    then have "k + 1 \<le> i \<and> i < k + 1 + length xs" by (rule Cons.IH)
    then show ?thesis by simp
  next
    case False
    with Cons.prems show ?thesis by (auto split: if_splits option.splits sum.splits)
  qed
qed

lemma Work_heap_ok:
  assumes ok: "heap_ok (pQueue q)" and w: "Work j q = Inr q'"
  shows "heap_ok (pQueue q')"
proof (cases j)
  case job_Finalize
  with ok w show ?thesis by auto
next
  case (job_enqueue r)
  with heap_Push_ok(1)[OF ok, of r] w show ?thesis by auto
next
  case (job_enqueueAll rs)
  with foldl_heap_Push_ok[OF ok, of rs] w show ?thesis by auto
next
  case (job_Set f p)
  show ?thesis
  proof (cases "Set_scan f (pQueue q) 0")
    case None
    with job_Set ok w show ?thesis by auto
  next
    case (Some i)
    then have "i < length (pQueue q)" using Set_scan_bound[of f "pQueue q" 0 i] by simp
    from heap_Fix_ok[OF ok this, of "(pQueue q ! i)\<lparr>prio := p\<rparr>"] job_Set Some w
    show ?thesis by auto
  qed
next
  case (job_Remove ident)
  show ?thesis
  proof (cases "Remove_scan (files q) ident (pQueue q) 0")
    case (Inl e)
    with job_Remove w show ?thesis by simp
  next
    case (Inr r)
    show ?thesis
    proof (cases r)
      case None
      with Inr job_Remove ok w show ?thesis by auto
    next
      case (Some i)
      with Inr have "i < length (pQueue q)"
        using Remove_scan_bound[of "files q" ident "pQueue q" 0 i] by simp
      from heap_Remove_ok[OF ok this] job_Remove Inr Some w
      show ?thesis by auto
    qed
  qed
next
  case job_List
  with ok w show ?thesis by auto
qed

lemma Work_frame:
  assumes "Work j q = Inr q'"
  shows "order q' = order q \<and> get_log q' = get_log q \<and> files q' = files q \<and>
         returned q' = returned q \<and> get_closed q' = get_closed q \<and>
         getAll_closed q' = getAll_closed q \<and> getAll_log q' = getAll_log q \<and>
         finalized q' = (finalized q \<or> j = job_Finalize)"
  using assms by (cases j) (auto split: option.splits sum.splits prod.splits)

section \<open>Invariants of the dispatcher\<close>

text \<open>
  \<open>counted\<close>: the pop counter equals the number of files sent on \<open>get\<close>, and every
  resolved request in the log was sent with its index as \<open>SeqNum\<close>.  \<open>marked\<close>: a resolved
  front request carries the current pop counter.  \<open>closing\<close>: the channels are closed
  exactly when the goroutine has returned, and then the queue is finalized and empty.
  \<open>settled\<close>: a dispatcher that blocks has not met the exit condition.  These hold along
  the runs of the dispatcher from \<open>newQueue\<close>, in which nothing but the dispatcher closes
  a channel; \<open>Stop\<close> of the client closes them from outside.
\<close>

definition counted :: "queue \<Rightarrow> bool" where
  "counted q =
     (order q = int (length (get_log q)) \<and>
      (\<forall>i < length (get_log q).
         resolved (fst (get_log q ! i)) \<longrightarrow> snd (get_log q ! i) = Some (int i)))"

definition marked :: "queue \<Rightarrow> bool" where
  "marked q =
     (\<not> returned q \<and> pQueue q \<noteq> [] \<and> resolved (hd (pQueue q)) \<longrightarrow>
        (\<exists>f. req_file (hd (pQueue q)) = Some f \<and> SeqNum (files q f) = order q))"

definition closing :: "queue \<Rightarrow> bool" where
  "closing q =
     ((returned q \<longrightarrow> finalized q \<and> pQueue q = []) \<and>
      get_closed q = returned q \<and> getAll_closed q = returned q)"

definition settled :: "queue \<Rightarrow> bool" where
  "settled q = (returned q = (finalized q \<and> pQueue q = []))"

definition dispatcher_inv :: "queue \<Rightarrow> bool" where
  "dispatcher_inv q = (heap_ok (pQueue q) \<and> counted q \<and> closing q)"

lemma heap_ok_Nil [simp]: "heap_ok []"
  by (simp add: heap_ok_def heap_upto_def)

lemma newQueue_inv: "dispatcher_inv (newQueue mem)"
  by (simp add: dispatcher_inv_def newQueue_def counted_def closing_def)

lemma peek_hd: "h \<noteq> [] \<Longrightarrow> peek h = Inr (hd h)"
  by (cases h) (simp_all add: peek_def)

lemma SeqNum_setPopOrder [simp]: "SeqNum (setPopOrder k F) = k"
  by (cases F) (simp_all add: SeqNum_def setPopOrder_def)

lemma enter_frame:
  assumes "enter q = Inr q1"
  shows "pQueue q1 = pQueue q \<and> order q1 = order q \<and> get_log q1 = get_log q \<and>
         finalized q1 = finalized q \<and> getAll_log q1 = getAll_log q \<and>
         (get_closed q \<longrightarrow> get_closed q1) \<and> (getAll_closed q \<longrightarrow> getAll_closed q1)"
  using assms
  by (auto simp: enter_def Len_def split: if_splits sum.splits option.splits)

lemma enter_inv:
  assumes inv: "dispatcher_inv q" and e: "enter q = Inr q1"
  shows "dispatcher_inv q1 \<and> settled q1 \<and> marked q1"
proof -
  note fr = enter_frame[OF e]
  have h: "heap_ok (pQueue q1)" using inv fr by (simp add: dispatcher_inv_def)
  have c: "counted q1" using inv fr by (simp add: dispatcher_inv_def counted_def)
  have cl: "closing q1 \<and> settled q1"
    using inv e
    by (auto simp: dispatcher_inv_def closing_def settled_def enter_def Len_def
        split: if_splits sum.splits option.splits)
  have m: "marked q1"
  proof (cases "\<not> returned q \<and> pQueue q \<noteq> [] \<and> resolved (hd (pQueue q))")
    case True
    with e show ?thesis
      by (auto simp: marked_def enter_def Len_def peek_hd split: option.splits)
  next
    case False
    with e show ?thesis
      by (auto simp: marked_def enter_def Len_def peek_hd split: if_splits)
  qed
  from h c cl m show ?thesis by (simp add: dispatcher_inv_def)
qed

lemma select_get_eq:
  assumes ok: "heap_ok (pQueue q)" and s: "select q select_get = Inr q'"
  shows "\<not> returned q \<and> pQueue q \<noteq> [] \<and>
         heap_Pop (pQueue q) = Inr (pQueue q', None) \<and>
         q' = q\<lparr>get_log := get_log q @
                  [(hd (pQueue q), map_option (\<lambda>f. SeqNum (files q f)) (req_file (hd (pQueue q))))],
                pQueue := pQueue q', order := order q + 1\<rparr> \<and>
         heap_ok (pQueue q') \<and> mset (pQueue q') = mset (pQueue q) - {#hd (pQueue q)#} \<and>
         length (pQueue q') = length (pQueue q) - 1"
proof -
  from s have nr: "\<not> returned q" and ne: "pQueue q \<noteq> []"
    by (auto simp: select_def Len_def split: if_splits)
  from s nr ne have op: "\<not> get_closed q"
    by (auto simp: select_def Len_def peek_hd split: if_splits)
  from heap_Pop_ok[OF ok ne] obtain h' where
    p: "heap_Pop (pQueue q) = Inr (h', None)" and h': "heap_ok h'"
    and ms: "mset h' = mset (pQueue q) - {#pQueue q ! 0#}"
    and ln: "length h' = length (pQueue q) - 1" by blast
  from s nr ne op p have q': "q' = q\<lparr>get_log := get_log q @
      [(hd (pQueue q), map_option (\<lambda>f. SeqNum (files q f)) (req_file (hd (pQueue q))))],
      pQueue := h', order := order q + 1\<rparr>"
    by (simp add: select_def Len_def peek_hd)
  then have "pQueue q' = h'" by simp
  with nr ne p q' h' ms ln show ?thesis by (simp add: hd_conv_nth)
qed

lemma select_inv:
  assumes inv: "dispatcher_inv q" and m: "marked q" and s: "select q ev = Inr q'"
  shows "dispatcher_inv q'"
proof -
  from s have nr: "\<not> returned q" by (auto simp: select_def split: if_splits)
  from inv have ok: "heap_ok (pQueue q)" and c: "counted q" and cl: "closing q"
    by (simp_all add: dispatcher_inv_def)
  show ?thesis
  proof (cases ev)
    case select_getAll
    with s nr inv show ?thesis
      by (auto simp: select_def dispatcher_inv_def counted_def closing_def split: if_splits)
  next
    case select_get
    note g = select_get_eq[OF ok s[unfolded select_get]]
    let ?front = "hd (pQueue q)"
    let ?seq = "map_option (\<lambda>f. SeqNum (files q f)) (req_file ?front)"
    have lg: "get_log q' = get_log q @ [(?front, ?seq)]" and o': "order q' = order q + 1"
      and r': "returned q' = returned q" and gc: "get_closed q' = get_closed q"
      and gac: "getAll_closed q' = getAll_closed q"
      by (subst conjunct2[OF conjunct2[OF conjunct2[OF g]], THEN conjunct1], simp)+
    have last: "resolved ?front \<longrightarrow> ?seq = Some (order q)"
      using m nr g by (auto simp: marked_def)
    have "counted q'"
      unfolding counted_def
    proof (intro conjI allI impI)
      show "order q' = int (length (get_log q'))" using c lg o' by (simp add: counted_def)
    next
      fix i assume i: "i < length (get_log q')" and r: "resolved (fst (get_log q' ! i))"
      show "snd (get_log q' ! i) = Some (int i)"
      proof (cases "i < length (get_log q)")
        case True
        with c r lg show ?thesis by (simp add: counted_def nth_append)
      next
        case False
        with i lg have "i = length (get_log q)" by simp
        with r lg last c show ?thesis by (simp add: counted_def nth_append)
      qed
    qed
    moreover have "closing q'" using cl nr r' gc gac by (simp add: closing_def)
    ultimately show ?thesis using g by (simp add: dispatcher_inv_def)
  next
    case (select_job j)
    with s nr have w: "Work j q = Inr q'" by (auto simp: select_def split: if_splits)
    note fr = Work_frame[OF w]
    have "heap_ok (pQueue q')" by (rule Work_heap_ok[OF ok w])
    moreover have "counted q'" using c fr by (simp add: counted_def)
    moreover have "closing q'" using cl nr fr by (simp add: closing_def)
    ultimately show ?thesis by (simp add: dispatcher_inv_def)
  qed
qed

lemma select_get_log:
  assumes ok: "heap_ok (pQueue q)" and s: "select q ev = Inr q'"
  shows "length (get_log q') = length (get_log q) + (if ev = select_get then 1 else 0)"
proof (cases ev)
  case select_getAll
  with s show ?thesis by (auto simp: select_def split: if_splits)
next
  case select_get
  from select_get_eq[OF ok s[unfolded select_get]]
  have "q' = q\<lparr>get_log := get_log q @
                  [(hd (pQueue q), map_option (\<lambda>f. SeqNum (files q f)) (req_file (hd (pQueue q))))],
                pQueue := pQueue q', order := order q + 1\<rparr>" by blast
  then have "get_log q' = get_log q @
                  [(hd (pQueue q), map_option (\<lambda>f. SeqNum (files q f)) (req_file (hd (pQueue q))))]"
    by (metis (no_types, lifting) queue.select_convs(8) queue.surjective queue.update_convs(1) queue.update_convs(5) queue.update_convs(8))
  with select_get show ?thesis by simp
next
  case (select_job j)
  with s have "Work j q = Inr q'" by (auto simp: select_def split: if_splits)
  from Work_frame[OF this] select_job show ?thesis by simp
qed

lemma select_finalized:
  assumes ok: "heap_ok (pQueue q)" and s: "select q ev = Inr q'"
  shows "finalized q' = (finalized q \<or> ev = select_job job_Finalize)"
proof (cases ev)
  case select_getAll
  with s show ?thesis by (auto simp: select_def split: if_splits)
next
  case select_get
  with s show ?thesis
    by (auto simp: select_def split: if_splits sum.splits prod.splits)
next
  case (select_job j)
  with s have "Work j q = Inr q'" by (auto simp: select_def split: if_splits)
  from Work_frame[OF this] select_job show ?thesis by simp
qed

lemma dispatch_inv:
  "dispatcher_inv q \<Longrightarrow> dispatch q evs = Inr q' \<Longrightarrow>
   dispatcher_inv q' \<and> settled q' \<and> marked q' \<and>
   length (get_log q') = length (get_log q) + length (filter (\<lambda>e. e = select_get) evs) \<and>
   finalized q' = (finalized q \<or> select_job job_Finalize \<in> set evs)"
proof (induction evs arbitrary: q)
  case Nil
  then have e: "enter q = Inr q'" by simp
  from enter_inv[OF Nil.prems(1) e] enter_frame[OF e] show ?case by simp
next
  case (Cons ev evs)
  from Cons.prems(2) obtain q1 q2 where e: "enter q = Inr q1" and s: "select q1 ev = Inr q2"
    and d: "dispatch q2 evs = Inr q'"
    by (auto split: sum.splits)
  note i1 = enter_inv[OF Cons.prems(1) e]
  note f1 = enter_frame[OF e]
  from i1 have ok1: "heap_ok (pQueue q1)" by (simp add: dispatcher_inv_def)
  have i2: "dispatcher_inv q2" using i1 s by (auto intro: select_inv)
  note IH = Cons.IH[OF i2 d]
  note l2 = select_get_log[OF ok1 s]
  note z2 = select_finalized[OF ok1 s]
  from IH l2 z2 f1 show ?case by auto
qed

section \<open>Files\<close>

lemma sha_round_length [simp]: "length (sha_round kw s) = length s"
  by (induction kw s rule: sha_round.induct) (simp_all add: Let_def)

lemma fold_sha_round_length [simp]: "length (fold sha_round kws s) = length s"
  by (induction kws arbitrary: s) simp_all

lemma compress_length [simp]: "length (compress hs block) = length hs"
  by (simp add: compress_def Let_def)

lemma fold_compress_length [simp]:
  "length (fold (\<lambda>blk hs. compress hs blk) blocks hs) = length hs"
  by (induction blocks arbitrary: hs) simp_all

lemma length_concat_be_bytes32: "length (concat (map be_bytes32 ws)) = 4 * length ws"
  by (induction ws) (simp_all add: be_bytes32_def)

lemma Sum256_length: "length (Sum256 bs) = 32"
  by (simp add: Sum256_def length_concat_be_bytes32 H256_def)

lemma hex_length: "length (hex bs) = 2 * length bs"
  by (induction bs) (simp_all add: hex_def hexbyte_def)

lemma hexdigit_lower: "hexdigit n \<in> set hex_digits"
proof -
  have "n mod 16 < length hex_digits" by (simp add: hex_digits_def)
  then show ?thesis unfolding hexdigit_def by (rule nth_mem)
qed

lemma hex_lower: "set (hex bs) \<subseteq> set hex_digits"
proof (induction bs)
  case Nil
  show ?case by (simp add: hex_def)
next
  case (Cons b bs)
  have "set (hexbyte b) \<subseteq> set hex_digits"
    by (simp add: hexbyte_def hexdigit_lower)
  with Cons show ?case by (simp add: hex_def)
qed

text \<open>
  C3, as stated, fails on an online File that was built with a nil completion callback:
  \<open>online\<close> accepts it, and \<open>done()\<close> calls it and panics.
\<close>

theorem done_nil_callback_counterexample:
  "Err (online demo_file ''http://host/a.bin'' NilFunc) = None \<and>
   Offline (online demo_file ''http://host/a.bin'' NilFunc) = Inr False \<and>
   done' (online demo_file ''http://host/a.bin'' NilFunc) = Inl nil_dereference"
  by (simp add: online_def)

text \<open>
  C3, amended.  An errored File panics on \<open>Offline()\<close>, \<open>LengthUnknown()\<close> and \<open>done()\<close>
  and its \<open>Err()\<close> is the stored error (non-nil when a non-nil error was stored); an
  offline File panics on \<open>LengthUnknown()\<close> and \<open>done()\<close>, its \<open>Err()\<close> is nil and its
  \<open>Offline()\<close> is true; an online File has \<open>Err()\<close> nil and \<open>Offline()\<close> false, and its
  \<open>done()\<close> calls the completion callback the File was built with: with a closure it
  hands control to the closure and raises no panic of its own, with a nil callback it
  panics.
\<close>

theorem File_call_order:
  "Offline (erroredFile f cur err) = Inl (Panic ''Offline() on errored file'') \<and>
   LengthUnknown (erroredFile f cur err) = Inl (Panic ''LengthUnknown() on errored file'') \<and>
   done' (erroredFile f cur err) = Inl (Panic ''done() on errored file'') \<and>
   Err (erroredFile f cur err) = err \<and>
   Err (errored orig cur (Some msg)) = Some msg \<and>
   LengthUnknown (offlineFile f cur) = Inl (Panic ''LengthUnknown() on offline file'') \<and>
   done' (offlineFile f cur) = Inl (Panic ''done() on offline file'') \<and>
   Err (offlineFile f cur) = None \<and>
   Offline (offlineFile f cur) = Inr True \<and>
   Err (onlineFile f cb) = None \<and>
   Offline (onlineFile f cb) = Inr False \<and>
   done' (onlineFile f (Closure c)) = Inr (Called (Closure c)) \<and>
   done' (online a orig (Closure c)) = Inr (Called (Closure c)) \<and>
   done' (onlineFile f NilFunc) = Inl nil_dereference"
  by (simp add: errored_def online_def)

text \<open>
  C6, as stated, fails on an offline File: \<open>URL()\<close> returns the current URL, but \<open>ID()\<close>
  is the method of the embedded struct, whose \<open>api.File\<close> is nil, and panics.
\<close>

theorem ID_offline_counterexample:
  "File_URL (offline ''http://host/a.bin'' ''http://host/a.bin'') = Inr ''http://host/a.bin'' \<and>
   ID (offline ''http://host/a.bin'' ''http://host/a.bin'') = Inl nil_dereference \<and>
   ID (offline ''http://host/a.bin'' ''http://host/a.bin'') \<noteq>
     Inr (hex (Sum256 (bytes_of ''http://host/a.bin'')))"
  by (simp add: offline_def ID_def file_ID_def file_URL_def)

text \<open>
  C6, amended.  For every online File built from a provider's file, \<open>ID()\<close> is the
  lower-case hexadecimal SHA-256 digest (64 digits) of the string form of \<open>URL()\<close>; it is
  a function of that string alone and setting the pop order does not change it.  On any
  File, \<open>ID()\<close> is that digest of the embedded provider file's URL when there is one and
  panics when there is none, as on every offline and errored File.
\<close>

theorem ID_sha256_of_URL:
  "ID (online a orig cb) = Inr (hex (Sum256 (bytes_of (URL a)))) \<and>
   File_URL (online a orig cb) = Inr (URL a) \<and>
   ID (setPopOrder k (online a orig cb)) = ID (online a orig cb) \<and>
   length (hex (Sum256 (bytes_of (URL a)))) = 64 \<and>
   set (hex (Sum256 (bytes_of (URL a)))) \<subseteq> set hex_digits \<and>
   ID F = (case api_File (embedded F) of
             None \<Rightarrow> Inl nil_dereference
           | Some b \<Rightarrow> Inr (hex (Sum256 (bytes_of (URL b))))) \<and>
   ID (offline orig cur) = Inl nil_dereference \<and>
   ID (errored orig cur err) = Inl nil_dereference"
proof -
  have "ID F = (case api_File (embedded F) of
             None \<Rightarrow> Inl nil_dereference
           | Some b \<Rightarrow> Inr (hex (Sum256 (bytes_of (URL b)))))"
    by (simp add: ID_def file_ID_def file_URL_def split: option.split)
  moreover have "length (hex (Sum256 (bytes_of (URL a)))) = 64"
    by (simp add: hex_length Sum256_length)
  moreover note hex_lower[of "Sum256 (bytes_of (URL a))"]
  ultimately show ?thesis
    by (simp add: online_def offline_def errored_def ID_def file_ID_def file_URL_def
        setPopOrder_def)
qed

lemmas demo_eval = demo_events_def demo_prefix_def demo_request_def demo_mem_def newQueue_def
  enter_def select_def Len_def peek_def heap_Pop_def heap_Push_def heap_Fix_def Push_def Pop_def
  down_def up.simps down_loop.simps Less_def Swap_def request_less_def resolved_def
  Let_def setPopOrder_def SeqNum_def online_def

lemma demo_queue_run: "dispatch (newQueue demo_mem) demo_prefix = Inr demo_queue"
  by (simp add: demo_queue_def demo_eval)

lemma demo_returned_run: "dispatch (newQueue demo_mem) demo_events = Inr demo_returned"
  by (simp add: demo_returned_def demo_eval)

lemma demo_queue_state:
  "pQueue demo_queue = [demo_request 3 3 0, demo_request 1 5 0, demo_request 2 3 1] \<and>
   \<not> finalized demo_queue \<and> \<not> returned demo_queue \<and> \<not> get_closed demo_queue \<and>
   \<not> getAll_closed demo_queue \<and> get_log demo_queue = [] \<and> getAll_log demo_queue = []"
  by (simp add: demo_queue_def demo_eval)

lemma demo_returned_state:
  "pQueue demo_returned = [] \<and> finalized demo_returned \<and> returned demo_returned \<and>
   get_closed demo_returned \<and> getAll_closed demo_returned"
  by (simp add: demo_returned_def demo_eval)

lemma newQueue_state:
  "pQueue (newQueue mem) = [] \<and> \<not> finalized (newQueue mem) \<and> \<not> returned (newQueue mem) \<and>
   \<not> get_closed (newQueue mem) \<and> \<not> getAll_closed (newQueue mem)"
  by (simp add: newQueue_def)

section \<open>The claims about the queue\<close>

text \<open>
  C1.  In every run of a queue's dispatcher, the number of files sent on \<open>get\<close> is the
  number of pops, the pop counter equals it, and every resolved request is sent with a
  \<open>SeqNum\<close> equal to the number of pops before it; so where all popped requests are
  resolved, as in the resolved queue, the sequence of \<open>SeqNum\<close> values is 0, 1, 2, ...,
  whatever jobs and \<open>getAll\<close> drains happen in between.
\<close>

theorem SeqNum_counts_pops:
  assumes run: "dispatch (newQueue mem) evs = Inr q"
  shows "length (get_log q) = length (filter (\<lambda>e. e = select_get) evs) \<and>
         order q = int (length (get_log q)) \<and>
         (\<forall>i < length (get_log q).
            resolved (fst (get_log q ! i)) \<longrightarrow> snd (get_log q ! i) = Some (int i)) \<and>
         ((\<forall>d \<in> set (get_log q). resolved (fst d)) \<longrightarrow>
            map snd (get_log q) = map (\<lambda>i. Some (int i)) [0..<length (get_log q)])"
proof -
  from dispatch_inv[OF newQueue_inv run]
  have c: "counted q"
    and n: "length (get_log q) = length (filter (\<lambda>e. e = select_get) evs)"
    by (simp_all add: dispatcher_inv_def newQueue_def)
  have "map snd (get_log q) = map (\<lambda>i. Some (int i)) [0..<length (get_log q)]"
    if all: "\<forall>d \<in> set (get_log q). resolved (fst d)"
  proof (rule nth_equalityI)
    show "length (map snd (get_log q)) = length (map (\<lambda>i. Some (int i)) [0..<length (get_log q)])"
      by simp
  next
    fix i assume "i < length (map snd (get_log q))"
    then have i: "i < length (get_log q)" by simp
    with all have "resolved (fst (get_log q ! i))" by simp
    with c i have "snd (get_log q ! i) = Some (int i)" by (simp add: counted_def)
    with i show "map snd (get_log q) ! i = map (\<lambda>i. Some (int i)) [0..<length (get_log q)] ! i"
      by simp
  qed
  with c n show ?thesis by (simp add: counted_def)
qed

theorem SeqNum_counts_pops_witness:
  "\<exists>q. dispatch (newQueue demo_mem) demo_events = Inr q \<and>
        map snd (get_log q) = [Some 0, Some 1, Some 2] \<and> order q = 3"
proof -
  have "\<exists>q. dispatch (newQueue demo_mem) demo_events = Inr q \<and>
          map (\<lambda>d. resolved (fst d)) (get_log q) = [True, True, True]"
    by (simp add: demo_eval)
  then obtain q where run: "dispatch (newQueue demo_mem) demo_events = Inr q"
    and res: "map (\<lambda>d. resolved (fst d)) (get_log q) = [True, True, True]"
    by (elim exE conjE)
  have all: "\<forall>d \<in> set (get_log q). resolved (fst d)"
  proof
    fix d assume "d \<in> set (get_log q)"
    then have "resolved (fst d) \<in> set (map (\<lambda>d. resolved (fst d)) (get_log q))" by simp
    then show "resolved (fst d)" unfolding res by simp
  qed
  have three: "length (filter (\<lambda>e. e = select_get) demo_events) = 3"
    by (simp add: demo_events_def demo_prefix_def)
  note th = SeqNum_counts_pops[OF run]
  from th three have len: "length (get_log q) = 3" by (simp only:)
  from th have ord: "order q = int (length (get_log q))" by (rule conjunct2[THEN conjunct1])
  from th have "(\<forall>d \<in> set (get_log q). resolved (fst d)) \<longrightarrow>
      map snd (get_log q) = map (\<lambda>i. Some (int i)) [0..<length (get_log q)]"
    by (rule conjunct2[THEN conjunct2, THEN conjunct2])
  with all have "map snd (get_log q) = map (\<lambda>i. Some (int i)) [0..<length (get_log q)]"
    by (rule rev_mp)
  then have "map snd (get_log q) = map (\<lambda>i. Some (int i)) [0..<3]" by (simp only: len)
  also have "\<dots> = [Some 0, Some 1, Some 2]" by code_simp
  finally have "map snd (get_log q) = [Some 0, Some 1, Some 2]" .
  moreover from ord have "order q = 3" by (simp add: len)
  ultimately show ?thesis using run by (intro exI conjI)
qed




text \<open>
  C9.  \<open>pQueue.Pop\<close> on a non-empty slice cuts off exactly the last element and returns
  nil.  When the dispatcher pops, \<open>heap.Pop\<close> returns that nil, the value sent on \<open>get\<close>
  is the file of the front request read with \<open>peek()\<close>, and that front request is a
  minimum of the heap and is exactly what \<open>heap.Pop\<close> removes.
\<close>

theorem Pop_returns_nil_peek_delivers:
  assumes run: "dispatch (newQueue mem) evs = Inr q" and pop: "select q select_get = Inr q'"
  shows "(h \<noteq> [] \<longrightarrow>
            Pop h = Inr (take (length h - 1) h, None) \<and>
            Suc (length (take (length h - 1) h)) = length h) \<and>
         (\<exists>front.
            peek (pQueue q) = Inr front \<and>
            heap_Pop (pQueue q) = Inr (pQueue q', None) \<and>
            get_log q' = get_log q @
              [(front, map_option (\<lambda>f. SeqNum (files q f)) (req_file front))] \<and>
            Suc (length (pQueue q')) = length (pQueue q) \<and>
            mset (pQueue q') = mset (pQueue q) - {#front#} \<and>
            (\<forall>x \<in> set (pQueue q). \<not> request_less x front))"
proof -
  from dispatch_inv[OF newQueue_inv run] have ok: "heap_ok (pQueue q)"
    by (simp add: dispatcher_inv_def)
  note g = select_get_eq[OF ok pop]
  let ?front = "hd (pQueue q)"
  from g have ne: "pQueue q \<noteq> []" by simp
  have a: "h \<noteq> [] \<longrightarrow>
            Pop h = Inr (take (length h - 1) h, None) \<and>
            Suc (length (take (length h - 1) h)) = length h"
    by (cases h) (simp_all add: Pop_def)
  have pk: "peek (pQueue q) = Inr ?front" using ne by (rule peek_hd)
  have hp: "heap_Pop (pQueue q) = Inr (pQueue q', None)" using g by simp
  have lg: "get_log q' = get_log q @
      [(?front, map_option (\<lambda>f. SeqNum (files q f)) (req_file ?front))]"
    by (subst conjunct2[OF conjunct2[OF conjunct2[OF g]], THEN conjunct1], simp)
  have ln: "Suc (length (pQueue q')) = length (pQueue q)" using g ne by simp
  have ms: "mset (pQueue q') = mset (pQueue q) - {#?front#}" using g by simp
  have min: "\<forall>x \<in> set (pQueue q). \<not> request_less x ?front"
    using heap_ok_root[OF ok] ne by (simp add: hd_conv_nth)
  from pk hp lg ln ms min have "\<exists>front.
            peek (pQueue q) = Inr front \<and>
            heap_Pop (pQueue q) = Inr (pQueue q', None) \<and>
            get_log q' = get_log q @
              [(front, map_option (\<lambda>f. SeqNum (files q f)) (req_file front))] \<and>
            Suc (length (pQueue q')) = length (pQueue q) \<and>
            mset (pQueue q') = mset (pQueue q) - {#front#} \<and>
            (\<forall>x \<in> set (pQueue q). \<not> request_less x front)"
    by (intro exI conjI)
  with a show ?thesis by (rule conjI)
qed

theorem Pop_returns_nil_peek_delivers_witness:
  "\<exists>q q'. dispatch (newQueue demo_mem) demo_prefix = Inr q \<and>
           select q select_get = Inr q' \<and>
           peek (pQueue q) = Inr (demo_request 3 3 0) \<and>
           heap_Pop (pQueue q) = Inr (pQueue q', None) \<and>
           Pop [demo_request 1 5 0] = Inr ([], None)"
proof -
  have "\<exists>q. dispatch (newQueue demo_mem) demo_prefix = Inr q \<and>
          peek (pQueue q) = Inr (demo_request 3 3 0) \<and>
          (\<exists>q'. select q select_get = Inr q')"
    by (simp add: demo_eval)
  then obtain q q' where run: "dispatch (newQueue demo_mem) demo_prefix = Inr q"
    and pk: "peek (pQueue q) = Inr (demo_request 3 3 0)"
    and pop: "select q select_get = Inr q'"
    by (elim exE conjE)
  note th = Pop_returns_nil_peek_delivers[OF run pop, of "[demo_request 1 5 0]"]
  from th have p: "Pop [demo_request 1 5 0] = Inr ([], None)" by simp
  from th obtain front where "heap_Pop (pQueue q) = Inr (pQueue q', None)"
    by (elim exE conjE)
  with run pop pk p show ?thesis by (intro exI conjI)
qed

text \<open>
  C4, as stated, fails once \<open>Client.Stop\<close> is called: it closes \<open>get\<close> and \<open>getAll\<close> of
  a queue whose heap holds three requests and on which no \<open>Finalize\<close> job has run.  After
  that the dispatcher panics when it sends; and a \<open>Finalize\<close> job on the other queue,
  whose heap is empty, makes its dispatcher panic on \<open>close\<close> instead of closing and
  exiting.
\<close>

theorem Stop_before_Finalize_counterexample:
  "dispatch (newQueue demo_mem) demo_prefix = Inr demo_queue \<and>
   select_job job_Finalize \<notin> set demo_prefix \<and>
   Stop (demo_client (newQueue demo_mem) demo_queue) = Inr demo_stopped \<and>
   get_closed (ResolvedQueue demo_stopped) \<and> getAll_closed (ResolvedQueue demo_stopped) \<and>
   length (pQueue (ResolvedQueue demo_stopped)) = 3 \<and>
   \<not> finalized (ResolvedQueue demo_stopped) \<and>
   dispatch (ResolvedQueue demo_stopped) [select_get] = Inl (Panic ''send on closed channel'') \<and>
   dispatch (resolverQueue demo_stopped) [select_job job_Finalize] =
     Inl (Panic ''close of closed channel'')"
proof -
  have s: "Stop (demo_client (newQueue demo_mem) demo_queue) = Inr demo_stopped"
    using demo_queue_state
    by (simp add: demo_stopped_def Stop_def close_get_def close_getAll_def demo_client_def
        newQueue_def)
  have r: "ResolvedQueue demo_stopped = demo_queue\<lparr>get_closed := True, getAll_closed := True\<rparr>"
    "resolverQueue demo_stopped = (newQueue demo_mem)\<lparr>get_closed := True, getAll_closed := True\<rparr>"
    using demo_queue_state
    by (simp_all add: demo_stopped_def Stop_def close_get_def close_getAll_def demo_client_def
        newQueue_def)
  have f: "select_job job_Finalize \<notin> set demo_prefix" by (simp add: demo_prefix_def)
  have p1: "dispatch (ResolvedQueue demo_stopped) [select_get] =
      Inl (Panic ''send on closed channel'')"
    using demo_queue_state
    by (simp add: r enter_def select_def Len_def peek_def demo_request_def resolved_def)
  have p2: "dispatch (resolverQueue demo_stopped) [select_job job_Finalize] =
      Inl (Panic ''close of closed channel'')"
    by (simp add: r enter_def select_def Len_def newQueue_def)
  from demo_queue_run f s p1 p2 demo_queue_state show ?thesis by (simp add: r)
qed

text \<open>
  C4, amended.  As long as \<open>Client.Stop\<close> has not been called, in every state that the
  dispatcher of a queue reaches the goroutine has returned exactly when the queue is
  finalized and its heap is empty, and \<open>get\<close> and \<open>getAll\<close> are closed exactly then; the
  queue is finalized exactly when a \<open>Finalize\<close> job has run.  A dispatcher that has
  returned serves nothing; one whose heap is empty and that is not finalized refuses \<open>get\<close>
  and \<open>getAll\<close> and runs any job; and a \<open>Finalize\<close> job on an empty heap makes it close
  both channels and return at once.
\<close>

theorem Finalize_drain_close:
  assumes run: "dispatch (newQueue mem) evs = Inr q"
  shows "returned q = (finalized q \<and> pQueue q = []) \<and>
         get_closed q = returned q \<and> getAll_closed q = returned q \<and>
         finalized q = (select_job job_Finalize \<in> set evs) \<and>
         (returned q \<longrightarrow> (\<forall>ev. select q ev = Inl Refused)) \<and>
         (pQueue q = [] \<and> \<not> finalized q \<longrightarrow>
            select q select_get = Inl Refused \<and> select q select_getAll = Inl Refused \<and>
            (\<forall>j. select q (select_job j) = Work j q) \<and>
            dispatch q [select_job job_Finalize] =
              Inr (q\<lparr>finalized := True, get_closed := True, getAll_closed := True,
                     returned := True\<rparr>))"
proof -
  from dispatch_inv[OF newQueue_inv run]
  have cl: "closing q" and st: "settled q"
    and fin: "finalized q = (select_job job_Finalize \<in> set evs)"
    by (simp_all add: dispatcher_inv_def newQueue_def)
  have r1: "returned q = (finalized q \<and> pQueue q = [])" using st by (simp add: settled_def)
  have r2: "get_closed q = returned q" "getAll_closed q = returned q"
    using cl by (simp_all add: closing_def)
  have r3: "returned q \<longrightarrow> (\<forall>ev. select q ev = Inl Refused)" by (simp add: select_def)
  have r4: "pQueue q = [] \<and> \<not> finalized q \<longrightarrow>
            select q select_get = Inl Refused \<and> select q select_getAll = Inl Refused \<and>
            (\<forall>j. select q (select_job j) = Work j q) \<and>
            dispatch q [select_job job_Finalize] =
              Inr (q\<lparr>finalized := True, get_closed := True, getAll_closed := True,
                     returned := True\<rparr>)"
  proof
    assume a: "pQueue q = [] \<and> \<not> finalized q"
    with r1 have nr: "\<not> returned q" by simp
    from a nr have e: "enter q = Inr q" by (simp add: enter_def Len_def)
    from a nr have s: "select q (select_job job_Finalize) = Inr (q\<lparr>finalized := True\<rparr>)"
      by (simp add: select_def Len_def)
    from a nr r2 have e2: "enter (q\<lparr>finalized := True\<rparr>) =
        Inr (q\<lparr>finalized := True, get_closed := True, getAll_closed := True, returned := True\<rparr>)"
      by (simp add: enter_def Len_def)
    from e s e2 have "dispatch q [select_job job_Finalize] =
        Inr (q\<lparr>finalized := True, get_closed := True, getAll_closed := True, returned := True\<rparr>)"
      by simp
    moreover from a nr have "select q select_get = Inl Refused"
      "select q select_getAll = Inl Refused" "\<forall>j. select q (select_job j) = Work j q"
      by (simp_all add: select_def Len_def)
    ultimately show "select q select_get = Inl Refused \<and> select q select_getAll = Inl Refused \<and>
            (\<forall>j. select q (select_job j) = Work j q) \<and>
            dispatch q [select_job job_Finalize] =
              Inr (q\<lparr>finalized := True, get_closed := True, getAll_closed := True,
                     returned := True\<rparr>)" by (intro conjI)
  qed
  from r1 r2 fin r3 r4 show ?thesis by (intro conjI)
qed

theorem Finalize_drain_close_witness:
  "\<exists>q. dispatch (newQueue demo_mem) demo_events = Inr q \<and>
        finalized q \<and> pQueue q = [] \<and> returned q \<and> get_closed q \<and> getAll_closed q \<and>
        select q select_get = Inl Refused"
proof -
  have "\<exists>q. dispatch (newQueue demo_mem) demo_events = Inr q \<and> pQueue q = []"
    by (simp add: demo_eval)
  then obtain q where run: "dispatch (newQueue demo_mem) demo_events = Inr q"
    and empty: "pQueue q = []" by (elim exE conjE)
  have f: "select_job job_Finalize \<in> set demo_events"
    by (simp add: demo_events_def)
  note th = Finalize_drain_close[OF run]
  from th f have fin: "finalized q" by (simp only:)
  from th fin empty have ret: "returned q" by simp
  from th ret have "get_closed q" "getAll_closed q" "select q select_get = Inl Refused"
    by simp_all
  with run fin empty ret show ?thesis by (intro exI conjI)
qed

lemma List_loop_sorted:
  assumes "heap_ok pq"
    and "sorted_wrt (\<lambda>a b. \<not> request_less b a) popped"
    and "\<forall>a \<in> set popped. \<forall>b \<in> set pq. \<not> request_less b a"
    and "\<forall>ev. dispatcher_serves ev \<in> set steps \<longrightarrow> Set_write q0 ev = None \<and>
           (\<forall>q. Set_write q ev = None)"
    and "List_loop q pq (map req_file popped) steps = Inr (cjs, q')"
  shows "\<exists>rs. cjs = map req_file rs \<and> mset rs = mset popped + mset pq \<and>
           sorted_wrt (\<lambda>a b. \<not> request_less b a) rs"
  using assms
proof (induction steps arbitrary: q pq popped)
  case Nil
  then have "pq = []" by (auto simp: Len_def split: if_splits)
  with Nil show ?case by (auto simp: Len_def)
next
  case (Cons st steps)
  have rest: "\<forall>ev. dispatcher_serves ev \<in> set steps \<longrightarrow> Set_write q0 ev = None \<and>
           (\<forall>q. Set_write q ev = None)"
    using Cons.prems(4) by simp
  show ?case
  proof (cases st)
    case List_pops
    with Cons.prems(5) have ne: "pq \<noteq> []" by (auto simp: Len_def split: if_splits)
    from heap_Pop_ok[OF Cons.prems(1) ne] obtain pq' where
      p: "heap_Pop pq = Inr (pq', None)" and ok': "heap_ok pq'"
      and ms: "mset pq' = mset pq - {#pq ! 0#}" by blast
    have hd0: "hd pq = pq ! 0" using ne by (simp add: hd_conv_nth)
    have mem: "hd pq \<in> set pq" using ne by simp
    have sub: "set pq' \<subseteq> set pq"
    proof
      fix x assume "x \<in> set pq'"
      then have "x \<in># mset pq'" by simp
      with ms have "x \<in># mset pq" by (metis in_diffD)
      then show "x \<in> set pq" by simp
    qed
    let ?popped = "popped @ [hd pq]"
    have l: "List_loop q pq' (map req_file ?popped) steps = Inr (cjs, q')"
      using Cons.prems(5) List_pops ne p by (simp add: Len_def peek_hd)
    have s: "sorted_wrt (\<lambda>a b. \<not> request_less b a) ?popped"
      using Cons.prems(2,3) mem by (simp add: sorted_wrt_append)
    have b: "\<forall>a \<in> set ?popped. \<forall>b \<in> set pq'. \<not> request_less b a"
    proof (intro ballI)
      fix a b assume a: "a \<in> set ?popped" and b: "b \<in> set pq'"
      from b sub have bq: "b \<in> set pq" by blast
      show "\<not> request_less b a"
      proof (cases "a \<in> set popped")
        case True
        with Cons.prems(3) bq show ?thesis by blast
      next
        case False
        with a have "a = hd pq" by simp
        with heap_ok_root[OF Cons.prems(1) bq] hd0 show ?thesis by simp
      qed
    qed
    from Cons.IH[OF ok' s b rest l] obtain rs where
      r: "cjs = map req_file rs" and m: "mset rs = mset ?popped + mset pq'"
      and so: "sorted_wrt (\<lambda>a b. \<not> request_less b a) rs" by blast
    have "pq ! 0 \<in># mset pq" using ne by simp
    with m ms hd0 have "mset rs = mset popped + mset pq" by simp
    with r so show ?thesis by blast
  next
    case (dispatcher_serves ev)
    with Cons.prems(4) have w: "Set_write q ev = None" by simp
    from Cons.prems(5) dispatcher_serves obtain q1 where
      "dispatch q [ev] = Inr q1"
      and l: "List_loop q1 (shared_write (Set_write q ev) pq) (map req_file popped) steps =
              Inr (cjs, q')"
      by (auto simp del: dispatch.simps split: sum.splits)
    with w have "List_loop q1 pq (map req_file popped) steps = Inr (cjs, q')"
      by (simp add: shared_write_def)
    from Cons.IH[OF Cons.prems(1) Cons.prems(2) Cons.prems(3) rest this] show ?thesis .
  qed
qed

lemma List_loop_returns:
  "heap_ok pq \<Longrightarrow> \<exists>cjs'. List_loop q pq cjs (replicate (length pq) List_pops) = Inr (cjs', q)"
proof (induction "length pq" arbitrary: pq cjs)
  case 0
  then show ?case by (simp add: Len_def)
next
  case (Suc n)
  then have ne: "pq \<noteq> []" by auto
  from heap_Pop_ok[OF Suc.prems ne] obtain pq' where
    p: "heap_Pop pq = Inr (pq', None)" and ok': "heap_ok pq'"
    and ln: "length pq' = length pq - 1" by blast
  from ln Suc.hyps(2) have n: "n = length pq'" by simp
  from Suc.hyps(1)[OF n ok', of "cjs @ [req_file (hd pq)]"] obtain cjs' where
    "List_loop q pq' (cjs @ [req_file (hd pq)]) (replicate (length pq') List_pops) = Inr (cjs', q)"
    by blast
  with ne p n Suc.hyps(2)[symmetric] show ?case by (simp add: Len_def peek_hd)
qed

lemma Set_write_other: "(\<forall>f p. ev \<noteq> select_job (job_Set f p)) \<Longrightarrow> Set_write q ev = None"
  by (cases ev) (auto simp: Set_write_def split: job.splits)

text \<open>
  C10, as stated, fails in two ways.  On a queue whose dispatcher has returned (finalized
  and drained) the job of \<open>List()\<close> is never served and \<open>List()\<close> does not return.  And on
  the queue of three requests, when the dispatcher serves a \<open>Set\<close> job that gives the
  request of file 1 the priority 0 after the copy was taken and before the loop pops,
  \<open>List()\<close> returns the files 3, 1, 2: the request of file 1, then of priority 0 (and of
  priority 5 when the copy was taken), stands after the request of file 3, of priority 3,
  and before the request of file 2, of priority 3.
\<close>

theorem List_counterexample:
  "dispatch (newQueue demo_mem) demo_events = Inr demo_returned \<and>
   queue_List demo_returned [] = Inl Refused \<and>
   dispatch (newQueue demo_mem) demo_prefix = Inr demo_queue \<and>
   pQueue demo_queue = [demo_request 3 3 0, demo_request 1 5 0, demo_request 2 3 1] \<and>
   map_sum id fst
     (queue_List demo_queue
        [dispatcher_serves (select_job (job_Set (Some 1) 0)), List_pops, List_pops, List_pops]) =
     Inr [Some 3, Some 1, Some 2] \<and>
   map_sum id (pQueue \<circ> snd)
     (queue_List demo_queue
        [dispatcher_serves (select_job (job_Set (Some 1) 0)), List_pops, List_pops, List_pops]) =
     Inr [(demo_request 1 5 0)\<lparr>prio := 0\<rparr>, demo_request 3 3 0, demo_request 2 3 1] \<and>
   request_less ((demo_request 1 5 0)\<lparr>prio := 0\<rparr>) (demo_request 3 3 0) \<and>
   request_less (demo_request 2 3 1) (demo_request 1 5 0)"
proof -
  have a: "queue_List demo_returned [] = Inl Refused"
    using demo_returned_state by (simp add: queue_List_def select_def)
  have q: "map_sum id fst
     (queue_List demo_queue
        [dispatcher_serves (select_job (job_Set (Some 1) 0)), List_pops, List_pops, List_pops]) =
     Inr [Some 3, Some 1, Some 2]"
    "map_sum id (pQueue \<circ> snd)
     (queue_List demo_queue
        [dispatcher_serves (select_job (job_Set (Some 1) 0)), List_pops, List_pops, List_pops]) =
     Inr [(demo_request 1 5 0)\<lparr>prio := 0\<rparr>, demo_request 3 3 0, demo_request 2 3 1]"
    using demo_queue_state
    by (simp_all add: queue_List_def Set_write_def shared_write_def enter_def select_def Len_def
        peek_def heap_Pop_def heap_Fix_def Pop_def down_def up.simps down_loop.simps Less_def
        Swap_def request_less_def resolved_def Let_def demo_request_def)
  have l: "request_less ((demo_request 1 5 0)\<lparr>prio := 0\<rparr>) (demo_request 3 3 0)"
    "request_less (demo_request 2 3 1) (demo_request 1 5 0)"
    by (simp_all add: request_less_def demo_request_def)
  from demo_queue_state
  have h: "pQueue demo_queue = [demo_request 3 3 0, demo_request 1 5 0, demo_request 2 3 1]"
    by (rule conjunct1)
  from demo_returned_run a demo_queue_run h q l show ?thesis
    by (intro conjI)
qed

text \<open>
  C10, amended.  In every state that a running dispatcher reaches, the job that \<open>List()\<close>
  submits leaves the queue as it was: the heap, and everything else, is unchanged.  When
  nothing else happens until the loop of \<open>List()\<close> is through, \<open>List()\<close> returns, the files
  of all queued requests in ascending order of (priority, insertion-order), and the
  queue is still as it was.  Whatever the dispatcher serves while the loop runs, as long
  as it is no \<open>Set\<close> job, a \<open>List()\<close> that returns returns the files of all requests
  queued when its job ran, in ascending order of (priority, insertion-order).
\<close>

theorem List_sorted_queue_unchanged:
  assumes run: "dispatch (newQueue mem) evs = Inr q" and running: "\<not> returned q"
  shows "select q (select_job job_List) = Inr q \<and>
         (\<exists>rs. queue_List q (replicate (length (pQueue q)) List_pops) = Inr (map req_file rs, q) \<and>
            mset rs = mset (pQueue q) \<and>
            sorted_wrt (\<lambda>a b. \<not> request_less b a) rs \<and>
            sorted_wrt (\<lambda>a b. prio a < prio b \<or>
                           (prio a = prio b \<and> insertion_order a \<le> insertion_order b)) rs) \<and>
         (\<forall>steps cjs q'.
            (\<forall>ev. dispatcher_serves ev \<in> set steps \<longrightarrow> (\<forall>f p. ev \<noteq> select_job (job_Set f p))) \<and>
            queue_List q steps = Inr (cjs, q') \<longrightarrow>
            (\<exists>rs. cjs = map req_file rs \<and> mset rs = mset (pQueue q) \<and>
               sorted_wrt (\<lambda>a b. \<not> request_less b a) rs))"
proof -
  from dispatch_inv[OF newQueue_inv run] have ok: "heap_ok (pQueue q)"
    by (simp add: dispatcher_inv_def)
  have job: "select q (select_job job_List) = Inr q" using running by (simp add: select_def)
  have same: "(\<lambda>a b. \<not> request_less b a) =
      (\<lambda>a b. prio a < prio b \<or> (prio a = prio b \<and> insertion_order a \<le> insertion_order b))"
    by (auto simp: request_less_def fun_eq_iff)
  have gen: "\<exists>rs. cjs = map req_file rs \<and> mset rs = mset (pQueue q) \<and>
               sorted_wrt (\<lambda>a b. \<not> request_less b a) rs"
    if ns: "\<forall>ev. dispatcher_serves ev \<in> set steps \<longrightarrow> (\<forall>f p. ev \<noteq> select_job (job_Set f p))"
      and l: "queue_List q steps = Inr (cjs, q')" for steps cjs q'
  proof -
    from l job have l': "List_loop q (pQueue q) (map req_file []) steps = Inr (cjs, q')"
      by (simp add: queue_List_def)
    have w: "\<forall>ev. dispatcher_serves ev \<in> set steps \<longrightarrow> Set_write q ev = None \<and>
           (\<forall>q. Set_write q ev = None)"
      using ns Set_write_other by blast
    from List_loop_sorted[OF ok _ _ w l'] show ?thesis by simp
  qed
  from List_loop_returns[OF ok, of q "[]"] obtain cjs where
    r: "List_loop q (pQueue q) [] (replicate (length (pQueue q)) List_pops) = Inr (cjs, q)"
    by blast
  with job have ql: "queue_List q (replicate (length (pQueue q)) List_pops) = Inr (cjs, q)"
    by (simp add: queue_List_def)
  have "\<forall>ev. dispatcher_serves ev \<in> set (replicate (length (pQueue q)) List_pops) \<longrightarrow>
          (\<forall>f p. ev \<noteq> select_job (job_Set f p))" by simp
  from gen[OF this ql] obtain rs where
    c: "cjs = map req_file rs" and m: "mset rs = mset (pQueue q)"
    and s: "sorted_wrt (\<lambda>a b. \<not> request_less b a) rs" by blast
  from s same have s': "sorted_wrt (\<lambda>a b. prio a < prio b \<or>
                           (prio a = prio b \<and> insertion_order a \<le> insertion_order b)) rs"
    by simp
  from ql c have ql': "queue_List q (replicate (length (pQueue q)) List_pops) =
     Inr (map req_file rs, q)" by simp
  from ql' m s s' have two: "\<exists>rs. queue_List q (replicate (length (pQueue q)) List_pops) =
            Inr (map req_file rs, q) \<and>
            mset rs = mset (pQueue q) \<and>
            sorted_wrt (\<lambda>a b. \<not> request_less b a) rs \<and>
            sorted_wrt (\<lambda>a b. prio a < prio b \<or>
                           (prio a = prio b \<and> insertion_order a \<le> insertion_order b)) rs"
    by (intro exI conjI)
  from gen have three: "\<forall>steps cjs q'.
            (\<forall>ev. dispatcher_serves ev \<in> set steps \<longrightarrow> (\<forall>f p. ev \<noteq> select_job (job_Set f p))) \<and>
            queue_List q steps = Inr (cjs, q') \<longrightarrow>
            (\<exists>rs. cjs = map req_file rs \<and> mset rs = mset (pQueue q) \<and>
               sorted_wrt (\<lambda>a b. \<not> request_less b a) rs)"
    by blast
  from job two three show ?thesis by (intro conjI)
qed

theorem List_sorted_queue_unchanged_witness:
  "dispatch (newQueue demo_mem) demo_prefix = Inr demo_queue \<and> \<not> returned demo_queue \<and>
   (\<exists>rs. queue_List demo_queue [List_pops, List_pops, List_pops] = Inr (map req_file rs, demo_queue) \<and>
         map req_file rs = [Some 3, Some 2, Some 1] \<and>
         sorted_wrt (\<lambda>a b. \<not> request_less b a) rs) \<and>
   (\<exists>rs q'. queue_List demo_queue
               [List_pops, dispatcher_serves select_get, List_pops, List_pops] =
               Inr (map req_file rs, q') \<and>
            map req_file rs = [Some 3, Some 2, Some 1] \<and>
            mset rs = mset (pQueue demo_queue) \<and>
            sorted_wrt (\<lambda>a b. \<not> request_less b a) rs)"
proof -
  note st = demo_queue_state
  from st have running: "\<not> returned demo_queue" by simp
  from st have len: "replicate (length (pQueue demo_queue)) List_pops =
      [List_pops, List_pops, List_pops]" by (simp add: numeral_3_eq_3)
  note th = List_sorted_queue_unchanged[OF demo_queue_run running]
  from th obtain rs where
    l: "queue_List demo_queue (replicate (length (pQueue demo_queue)) List_pops) =
          Inr (map req_file rs, demo_queue)"
    and s: "sorted_wrt (\<lambda>a b. \<not> request_less b a) rs"
    by (elim exE conjE)
  have e1: "map_sum id fst (queue_List demo_queue [List_pops, List_pops, List_pops]) =
      Inr [Some 3, Some 2, Some 1]"
    using st
    by (simp add: queue_List_def select_def Len_def peek_def heap_Pop_def Pop_def down_def
        down_loop.simps Less_def Swap_def request_less_def Let_def demo_request_def)
  from l len have l': "queue_List demo_queue [List_pops, List_pops, List_pops] =
          Inr (map req_file rs, demo_queue)" by simp
  with e1 have f1: "map req_file rs = [Some 3, Some 2, Some 1]" by simp
  from l' f1 s have one: "\<exists>rs. queue_List demo_queue [List_pops, List_pops, List_pops] =
         Inr (map req_file rs, demo_queue) \<and>
         map req_file rs = [Some 3, Some 2, Some 1] \<and>
         sorted_wrt (\<lambda>a b. \<not> request_less b a) rs"
    by (intro exI conjI)
  let ?steps = "[List_pops, dispatcher_serves select_get, List_pops, List_pops]"
  have e2: "\<exists>q'. queue_List demo_queue ?steps = Inr ([Some 3, Some 2, Some 1], q')"
    using st
    by (simp add: queue_List_def Set_write_def shared_write_def enter_def select_def Len_def
        peek_def heap_Pop_def Pop_def down_def down_loop.simps Less_def Swap_def
        request_less_def resolved_def Let_def demo_request_def)
  then obtain q' where r2: "queue_List demo_queue ?steps = Inr ([Some 3, Some 2, Some 1], q')"
    by (elim exE)
  have ns: "\<forall>ev. dispatcher_serves ev \<in> set ?steps \<longrightarrow> (\<forall>f p. ev \<noteq> select_job (job_Set f p))"
    by simp
  from th have g: "\<forall>steps cjs q'.
            (\<forall>ev. dispatcher_serves ev \<in> set steps \<longrightarrow> (\<forall>f p. ev \<noteq> select_job (job_Set f p))) \<and>
            queue_List demo_queue steps = Inr (cjs, q') \<longrightarrow>
            (\<exists>rs. cjs = map req_file rs \<and> mset rs = mset (pQueue demo_queue) \<and>
               sorted_wrt (\<lambda>a b. \<not> request_less b a) rs)"
    by (rule conjunct2[THEN conjunct2])
  from g[rule_format, where steps = ?steps and cjs = "[Some 3, Some 2, Some 1]" and q' = q',
      OF conjI[OF ns r2]]
  obtain rs2 where c2: "[Some 3, Some 2, Some 1] = map req_file rs2"
    and m2: "mset rs2 = mset (pQueue demo_queue)"
    and s2: "sorted_wrt (\<lambda>a b. \<not> request_less b a) rs2"
    by (elim exE conjE)
  from r2 c2 have r2': "queue_List demo_queue ?steps = Inr (map req_file rs2, q')" by simp
  from c2 have c2': "map req_file rs2 = [Some 3, Some 2, Some 1]" by simp
  from r2' c2' m2 s2 have two: "\<exists>rs q'. queue_List demo_queue ?steps = Inr (map req_file rs, q') \<and>
            map req_file rs = [Some 3, Some 2, Some 1] \<and>
            mset rs = mset (pQueue demo_queue) \<and>
            sorted_wrt (\<lambda>a b. \<not> request_less b a) rs"
    by (intro exI conjI)
  from demo_queue_run running one two show ?thesis by (intro conjI)
qed

section \<open>The claims about the client\<close>

lemma select_closed:
  assumes c: "get_closed q" "getAll_closed q" and s: "select q ev = Inr q'"
  shows "get_log q' = get_log q \<and> getAll_log q' = getAll_log q \<and>
         get_closed q' \<and> getAll_closed q'"
proof (cases ev)
  case select_getAll
  with c s show ?thesis by (auto simp: select_def split: if_splits)
next
  case select_get
  with c s show ?thesis by (auto simp: select_def split: if_splits sum.splits)
next
  case (select_job j)
  with s have "Work j q = Inr q'" by (auto simp: select_def split: if_splits)
  from Work_frame[OF this] c show ?thesis by simp
qed

lemma dispatch_closed:
  "get_closed q \<Longrightarrow> getAll_closed q \<Longrightarrow> dispatch q evs = Inr q' \<Longrightarrow>
   get_log q' = get_log q \<and> getAll_log q' = getAll_log q \<and> get_closed q' \<and> getAll_closed q'"
proof (induction evs arbitrary: q)
  case Nil
  then have e: "enter q = Inr q'" by simp
  from enter_frame[OF e] Nil.prems show ?case by simp
next
  case (Cons ev evs)
  from Cons.prems(3) obtain q1 q2 where e: "enter q = Inr q1" and s: "select q1 ev = Inr q2"
    and d: "dispatch q2 evs = Inr q'"
    by (auto split: sum.splits)
  from enter_frame[OF e] Cons.prems have c1: "get_closed q1" "getAll_closed q1"
    and l1: "get_log q1 = get_log q" "getAll_log q1 = getAll_log q" by simp_all
  note s2 = select_closed[OF c1 s]
  from s2 have c2: "get_closed q2" "getAll_closed q2" by simp_all
  from Cons.IH[OF c2 d] s2 l1 show ?case by simp
qed




lemma heap_Push_mset:
  "mset (heap_Push h x) = mset h + {#x#} \<and> length (heap_Push h x) = Suc (length h)"
proof -
  have "length h < length (h @ [x])" by simp
  from up_mset[OF this] up_length[OF this] show ?thesis
    by (simp add: heap_Push_def Push_def Len_def Let_def)
qed

lemma foldl_heap_Push_mset:
  "mset (foldl heap_Push h reqs) = mset h + mset reqs \<and>
   length (foldl heap_Push h reqs) = length h + length reqs"
proof (induction reqs arbitrary: h)
  case Nil
  then show ?case by simp
next
  case (Cons r reqs)
  from heap_Push_mset[of h r] Cons.IH[of "heap_Push h r"] show ?case by simp
qed

lemma sint_small:
  "- 2147483648 \<le> x \<Longrightarrow> x < 2147483648 \<Longrightarrow> sint (word_of_int x :: 32 word) = x"
  by (simp add: signed_of_int signed_take_bit_int_eq_self)




section \<open>Serialization\<close>

lemma Marshal_string_ascii: "ascii s \<Longrightarrow> Marshal_string s = s"
  by (induction s) (simp_all add: ascii_def rune_size_def Let_def Marshal_string.simps)

lemma Marshal_string_invalid:
  "Marshal_string [CHR ''a'', char_of (200 :: nat), CHR ''b''] = ''a'' @ replacement @ ''b''"
  by (simp add: Marshal_string.simps rune_size_def in_range_def Let_def)

lemma hex_ascii: "ascii (hex bs)"
proof -
  have "\<forall>c \<in> set hex_digits. (of_char c :: nat) < 128" by (simp add: hex_digits_def)
  with hex_lower[of bs] show ?thesis unfolding ascii_def by blast
qed

lemma lower_char_no_upper: "\<not> is_upper (lower_char c)"
proof (cases "65 \<le> (of_char c :: nat) \<and> (of_char c :: nat) \<le> 90")
  case True
  then have "of_char (lower_char c) = (of_char c + 32 :: nat)"
    by (simp add: lower_char_def)
  with True show ?thesis by (simp add: is_upper_def)
next
  case False
  then show ?thesis by (simp add: lower_char_def is_upper_def)
qed

lemma lower_char_ascii: "(of_char c :: nat) < 128 \<Longrightarrow> (of_char (lower_char c) :: nat) < 128"
proof (cases "65 \<le> (of_char c :: nat) \<and> (of_char c :: nat) \<le> 90")
  case True
  then have "of_char (lower_char c) = (of_char c + 32 :: nat)"
    by (simp add: lower_char_def)
  with True show ?thesis by simp
next
  case False
  assume "(of_char c :: nat) < 128"
  with False show ?thesis by (simp add: lower_char_def)
qed

lemma ToLower_ascii:
  assumes "ascii s"
  shows "Marshal_string (ToLower L s) = map lower_char s \<and>
         list_all (\<lambda>c. \<not> is_upper c) (map lower_char s)"
proof -
  from assms have "ascii (map lower_char s)" by (auto simp: ascii_def lower_char_ascii)
  then have "Marshal_string (map lower_char s) = map lower_char s" by (rule Marshal_string_ascii)
  with assms show ?thesis by (simp add: ToLower_def list_all_iff lower_char_no_upper)
qed

lemma Marshal_keys:
  "Marshal_string ''id'' = ''id''" "Marshal_string ''provider'' = ''provider''"
  "Marshal_string ''name'' = ''name''" "Marshal_string ''url'' = ''url''"
  "Marshal_string ''size'' = ''size''" "Marshal_string ''checksum'' = ''checksum''"
  "Marshal_string ''algo'' = ''algo''" "Marshal_string ''sum'' = ''sum''"
  by (rule Marshal_string_ascii, simp add: ascii_def)+

text \<open>
  C7, as stated, fails on an offline File: \<open>MarshalJSON\<close> is the method of the embedded
  struct and starts with \<open>f.ID()\<close>, which panics on the nil \<open>api.File\<close>.
\<close>

theorem MarshalJSON_offline_counterexample:
  "MarshalJSON (\<lambda>s. s) (offline ''http://host/a.bin'' ''http://host/a.bin'') =
     Inl nil_dereference"
  by (simp add: offline_def MarshalJSON_def file_MarshalJSON_def file_ID_def file_URL_def)

text \<open>
  C7, amended.  For every online File built from a provider's file, JSON serialization
  produces an object with exactly the keys id, provider, name, url and size, and the key
  checksum exactly when the file carries a checksum; the values are the ID, the
  provider's name, the name, the URL string (each as \<open>json.Marshal\<close> writes a string) and
  the size as it is (also \<open>-1\<close>), and the checksum is an object with the algorithm name
  lower-cased by \<open>strings.ToLower\<close> under algo and the hex digest under sum.  An
  algorithm name in ASCII comes out with every letter \<open>A\<close> to \<open>Z\<close> replaced by its
  lower-case letter and nothing else changed, and every string in ASCII is written as it
  is.  On an offline or errored File serialization panics.
\<close>

theorem MarshalJSON_online:
  "\<exists>j. MarshalJSON L (online a orig cb) = Inr j \<and>
       distinct (json_keys j) \<and>
       set (json_keys j) =
         {''id'', ''provider'', ''name'', ''url'', ''size''} \<union>
         (if Checksum a = None then {} else {''checksum''}) \<and>
       json_get j ''id'' = Some (JString (hex (Sum256 (bytes_of (URL a))))) \<and>
       json_get j ''provider'' = Some (JString (Marshal_string (Provider_Name a))) \<and>
       json_get j ''name'' = Some (JString (Marshal_string (Name a))) \<and>
       json_get j ''url'' = Some (JString (Marshal_string (URL a))) \<and>
       json_get j ''size'' = Some (JInt (Size a)) \<and>
       json_get j ''checksum'' =
         map_option (\<lambda>cks. JObject [(''algo'', JString (Marshal_string (ToLower L (Checksum_algo a)))),
                                    (''sum'', JString (hex cks))]) (Checksum a) \<and>
       (ascii (Checksum_algo a) \<longrightarrow>
          Marshal_string (ToLower L (Checksum_algo a)) = map lower_char (Checksum_algo a) \<and>
          list_all (\<lambda>c. \<not> is_upper c) (map lower_char (Checksum_algo a))) \<and>
       (\<forall>s. ascii s \<longrightarrow> Marshal_string s = s) \<and>
       MarshalJSON L (offline orig cur) = Inl nil_dereference \<and>
       MarshalJSON L (errored orig cur err) = Inl nil_dereference"
proof -
  let ?base = "[(''id'', JString (hex (Sum256 (bytes_of (URL a))))),
                (''provider'', JString (Marshal_string (Provider_Name a))),
                (''name'', JString (Marshal_string (Name a))),
                (''url'', JString (Marshal_string (URL a))),
                (''size'', JInt (Size a))]"
  let ?cks = "case Checksum a of
                None \<Rightarrow> []
              | Some cks \<Rightarrow>
                  [(''checksum'',
                    JObject [(''algo'', JString (Marshal_string (ToLower L (Checksum_algo a)))),
                             (''sum'', JString (hex cks))])]"
  let ?j = "JObject (?base @ ?cks)"
  have m: "MarshalJSON L (online a orig cb) = Inr ?j"
    by (simp add: online_def MarshalJSON_def file_MarshalJSON_def file_ID_def file_URL_def
        Marshal_keys Marshal_string_ascii[OF hex_ascii] split: option.split)
  have k: "json_keys ?j = [''id'', ''provider'', ''name'', ''url'', ''size''] @
             (if Checksum a = None then [] else [''checksum''])"
    by (simp add: json_keys_def split: option.split)
  have d: "distinct (json_keys ?j)" unfolding k by simp
  have s: "set (json_keys ?j) =
             {''id'', ''provider'', ''name'', ''url'', ''size''} \<union>
             (if Checksum a = None then {} else {''checksum''})"
    unfolding k by auto
  have g: "json_get ?j ''id'' = Some (JString (hex (Sum256 (bytes_of (URL a)))))"
    "json_get ?j ''provider'' = Some (JString (Marshal_string (Provider_Name a)))"
    "json_get ?j ''name'' = Some (JString (Marshal_string (Name a)))"
    "json_get ?j ''url'' = Some (JString (Marshal_string (URL a)))"
    "json_get ?j ''size'' = Some (JInt (Size a))"
    "json_get ?j ''checksum'' =
       map_option (\<lambda>cks. JObject [(''algo'', JString (Marshal_string (ToLower L (Checksum_algo a)))),
                                  (''sum'', JString (hex cks))]) (Checksum a)"
    by (simp_all add: json_get_def split: option.split)
  have lo: "ascii (Checksum_algo a) \<longrightarrow>
          Marshal_string (ToLower L (Checksum_algo a)) = map lower_char (Checksum_algo a) \<and>
          list_all (\<lambda>c. \<not> is_upper c) (map lower_char (Checksum_algo a))"
    using ToLower_ascii by blast
  have as: "\<forall>s. ascii s \<longrightarrow> Marshal_string s = s" using Marshal_string_ascii by blast
  have p: "MarshalJSON L (offline orig cur) = Inl nil_dereference"
    "MarshalJSON L (errored orig cur err) = Inl nil_dereference"
    by (simp_all add: offline_def errored_def MarshalJSON_def file_MarshalJSON_def
        file_ID_def file_URL_def)
  from m d s g lo as p show ?thesis
    by (intro exI conjI)
qed

theorem MarshalJSON_online_witness:
  "ascii (Checksum_algo demo_file) \<and>
   (\<exists>j. MarshalJSON (\<lambda>s. s) (online demo_file ''http://host/a.bin'' (Closure 0)) = Inr j \<and>
        json_get j ''name'' = Some (JString ''a.bin'') \<and>
        json_get j ''size'' = Some (JInt (- 1)) \<and>
        json_get j ''checksum'' =
          Some (JObject [(''algo'', JString ''sha1''), (''sum'', JString ''dead'')]))"
proof -
  have a: "ascii (Checksum_algo demo_file)"
    by (simp add: ascii_def demo_file_def)
  have n: "ascii (Name demo_file)"
    by (simp add: ascii_def demo_file_def)
  have l: "map lower_char (Checksum_algo demo_file) = ''sha1''"
    by code_simp
  have h: "hex [0xde, 0xad] = ''dead''"
    by code_simp
  have c: "Checksum demo_file = Some [0xde, 0xad]" and s: "Size demo_file = - 1"
    and nm: "Name demo_file = ''a.bin''"
    by (simp_all add: demo_file_def)
  from MarshalJSON_online[where a = demo_file and L = "\<lambda>s. s" and orig = "''http://host/a.bin''"
      and cb = "Closure 0" and cur = "''http://host/a.bin''" and err = None]
  obtain j where
    m: "MarshalJSON (\<lambda>s. s) (online demo_file ''http://host/a.bin'' (Closure 0)) = Inr j"
    and gn: "json_get j ''name'' = Some (JString (Marshal_string (Name demo_file)))"
    and gs: "json_get j ''size'' = Some (JInt (Size demo_file))"
    and gc: "json_get j ''checksum'' =
             map_option (\<lambda>cks. JObject [(''algo'', JString (Marshal_string (ToLower (\<lambda>s. s) (Checksum_algo demo_file)))),
                                        (''sum'', JString (hex cks))]) (Checksum demo_file)"
    and lo: "ascii (Checksum_algo demo_file) \<longrightarrow>
          Marshal_string (ToLower (\<lambda>s. s) (Checksum_algo demo_file)) =
            map lower_char (Checksum_algo demo_file) \<and>
          list_all (\<lambda>c. \<not> is_upper c) (map lower_char (Checksum_algo demo_file))"
    and as: "\<forall>s. ascii s \<longrightarrow> Marshal_string s = s"
    by (elim exE conjE)
  from lo a have lo': "Marshal_string (ToLower (\<lambda>s. s) (Checksum_algo demo_file)) = ''sha1''"
    by (simp add: l)
  from as n have "Marshal_string (Name demo_file) = Name demo_file" by blast
  with gn have gn': "json_get j ''name'' = Some (JString ''a.bin'')" by (simp add: nm)
  from gs have gs': "json_get j ''size'' = Some (JInt (- 1))" by (simp add: s)
  from gc have gc': "json_get j ''checksum'' =
          Some (JObject [(''algo'', JString ''sha1''), (''sum'', JString ''dead'')])"
    by (simp add: lo' h c)
  from a m gn' gs' gc' show ?thesis by (intro exI conjI)
qed

end
